theory Spec2Isabelle
  imports Main "HOL-Library.Char_ord"
begin

section \<open>Text buffers and the regular-expression engine the scripts call\<close>

text \<open>
  A buffer is a Python \<open>str\<close>; it is modelled as a \<^typ>\<open>string\<close>, a list of characters
  with code points below 256. The scripts call \<open>re.sub\<close> with patterns built from literal
  runs, single-character classes (possibly quantified, greedy or lazy), capture groups that
  are neither nested nor quantified, and (in one script) back-references. The engine below
  is a backtracking matcher for exactly this fragment: it tries the alternatives of every
  quantifier in the order Python's \<open>re\<close> tries them and returns the first success, so it
  returns the match \<open>re\<close> returns.
\<close>

datatype item = C char | R char char | Space | Word | Digit

datatype cls = Pos "item list" | Neg "item list"

text \<open>The classes \<open>\s\<close>, \<open>\d\<close> and \<open>\w\<close> of a \<open>str\<close> pattern, on code points below 256.\<close>

definition is_space :: "char \<Rightarrow> bool" where
  "is_space c = (c \<in> set [CHR 0x09, CHR 0x0A, CHR 0x0B, CHR 0x0C, CHR 0x0D, CHR 0x1C,
     CHR 0x1D, CHR 0x1E, CHR 0x1F, CHR 0x20, CHR 0x85, CHR 0xA0])"

definition is_digit :: "char \<Rightarrow> bool" where
  "is_digit c = (CHR ''0'' \<le> c \<and> c \<le> CHR ''9'')"

definition is_word :: "char \<Rightarrow> bool" where
  "is_word c = (is_digit c \<or> (CHR ''A'' \<le> c \<and> c \<le> CHR ''Z'') \<or> c = CHR ''_''
     \<or> (CHR ''a'' \<le> c \<and> c \<le> CHR ''z'')
     \<or> c \<in> set [CHR 0xAA, CHR 0xB2, CHR 0xB3, CHR 0xB5, CHR 0xB9, CHR 0xBA, CHR 0xBC, CHR 0xBD, CHR 0xBE]
     \<or> (CHR 0xC0 \<le> c \<and> c \<le> CHR 0xD6) \<or> (CHR 0xD8 \<le> c \<and> c \<le> CHR 0xF6) \<or> CHR 0xF8 \<le> c)"

fun item_has :: "item \<Rightarrow> char \<Rightarrow> bool" where
  "item_has (C a) c = (c = a)"
| "item_has (R lo hi) c = (lo \<le> c \<and> c \<le> hi)"
| "item_has Space c = is_space c"
| "item_has Word c = is_word c"
| "item_has Digit c = is_digit c"

fun accepts :: "cls \<Rightarrow> char \<Rightarrow> bool" where
  "accepts (Pos is) c = (\<exists>i\<in>set is. item_has i c)"
| "accepts (Neg is) c = (\<not> (\<exists>i\<in>set is. item_has i c))"

text \<open>
  A pattern is a sequence of atoms. \<open>Star\<close> is the greedy \<open>*\<close> and \<open>Lazy\<close> the lazy \<open>*?\<close> of
  a class; \<open>+\<close> is \<open>One\<close> followed by \<open>Star\<close>. \<open>Open\<close> and \<open>Close\<close> delimit a capture group;
  groups are numbered from 1 in the order they close, as in the source patterns.
\<close>

datatype atom = Lit string | One cls | Star cls | Lazy cls | Open | Close | Backref nat

definition one_or_more :: "cls \<Rightarrow> atom list" where
  "one_or_more c = [One c, Star c]"

definition capture :: "atom list \<Rightarrow> atom list" where
  "capture p = Open # p @ [Close]"

text \<open>\<open>strip_prefix l s\<close> is the rest of \<open>s\<close> after the literal \<open>l\<close>, when \<open>s\<close> starts with it.\<close>

fun strip_prefix :: "string \<Rightarrow> string \<Rightarrow> string option" where
  "strip_prefix [] s = Some s"
| "strip_prefix (c # cs) [] = None"
| "strip_prefix (c # cs) (x # xs) = (if c = x then strip_prefix cs xs else None)"

text \<open>Python's \<open>l in s\<close> on strings.\<close>

fun contains :: "string \<Rightarrow> string \<Rightarrow> bool" where
  "contains l [] = (l = [])"
| "contains l (x # xs) = (strip_prefix l (x # xs) \<noteq> None \<or> contains l xs)"

text \<open>Python's \<open>s.endswith(l)\<close>.\<close>

definition endswith :: "string \<Rightarrow> string \<Rightarrow> bool" where
  "endswith s l = (strip_prefix (rev l) (rev s) \<noteq> None)"

text \<open>
  The matcher state is the list of captured groups and the input as it stood where the
  open group began. \<open>match p s st\<close> matches \<open>p\<close> at the start of \<open>s\<close> and returns the
  captures and the unconsumed rest of the input.
\<close>

type_synonym mstate = "string list \<times> string"

fun match :: "atom list \<Rightarrow> string \<Rightarrow> mstate \<Rightarrow> (string list \<times> string) option" where
  "match [] s (caps, mark) = Some (caps, s)"
| "match (Lit l # p) s st =
     (case strip_prefix l s of None \<Rightarrow> None | Some s' \<Rightarrow> match p s' st)"
| "match (One c # p) s st =
     (case s of [] \<Rightarrow> None | x # xs \<Rightarrow> if accepts c x then match p xs st else None)"
| "match (Star c # p) s st =
     (case s of [] \<Rightarrow> match p [] st
      | x # xs \<Rightarrow>
          if accepts c x
          then (case match (Star c # p) xs st of Some r \<Rightarrow> Some r | None \<Rightarrow> match p (x # xs) st)
          else match p (x # xs) st)"
| "match (Lazy c # p) s st =
     (case match p s st of Some r \<Rightarrow> Some r
      | None \<Rightarrow>
          (case s of [] \<Rightarrow> None
           | x # xs \<Rightarrow> if accepts c x then match (Lazy c # p) xs st else None))"
| "match (Open # p) s (caps, mark) = match p s (caps, s)"
| "match (Close # p) s (caps, mark) =
     match p s (caps @ [take (length mark - length s) mark], mark)"
| "match (Backref n # p) s (caps, mark) =
     (if 1 \<le> n \<and> n \<le> length caps
      then (case strip_prefix (caps ! (n - 1)) s of None \<Rightarrow> None | Some s' \<Rightarrow> match p s' (caps, mark))
      else None)"

text \<open>A replacement template: literal text and group references \<open>\n\<close>.\<close>

datatype tpl = T string | G nat

fun expand :: "tpl list \<Rightarrow> string list \<Rightarrow> string" where
  "expand [] caps = []"
| "expand (T s # t) caps = s @ expand t caps"
| "expand (G n # t) caps = (caps ! (n - 1)) @ expand t caps"

text \<open>
  \<open>re.sub(pattern, template, s)\<close>: scan left to right, replace the leftmost match, continue
  after it. Every pattern of the repository consumes at least one character; the branch
  for an empty match (replace, copy one character, go on) is never taken by them.
\<close>

fun re_sub :: "atom list \<Rightarrow> tpl list \<Rightarrow> string \<Rightarrow> string" where
  "re_sub p t s =
     (case match p s ([], s) of
        Some (caps, rest) \<Rightarrow>
          if length rest < length s then expand t caps @ re_sub p t rest
          else expand t caps @ (case s of [] \<Rightarrow> [] | x # xs \<Rightarrow> x # re_sub p t xs)
      | None \<Rightarrow> (case s of [] \<Rightarrow> [] | x # xs \<Rightarrow> x # re_sub p t xs))"

declare re_sub.simps [simp del]

type_synonym rule = "atom list \<times> tpl list"

text \<open>A sequence of \<open>content = re.sub(pattern, template, content)\<close> statements, in order.\<close>

definition apply_rules :: "rule list \<Rightarrow> string \<Rightarrow> string" where
  "apply_rules rules content = fold (\<lambda>(p, t) c. re_sub p t c) rules content"


section \<open>The rule tables of the fluent-assertion scripts\<close>

definition dq :: char where "dq = CHR 0x22"
definition sq :: char where "sq = CHR 0x27"
definition bslash :: char where "bslash = CHR 0x5C"
definition newline :: char where "newline = CHR 0x0A"

text \<open>\<open>[a-zA-Z_]\<close> and \<open>[a-zA-Z0-9_]\<close>.\<close>

definition ident_start :: cls where
  "ident_start = Pos [R CHR ''a'' CHR ''z'', R CHR ''A'' CHR ''Z'', C CHR ''_'']"

definition ident_char :: cls where
  "ident_char = Pos [R CHR ''a'' CHR ''z'', R CHR ''A'' CHR ''Z'', R CHR ''0'' CHR ''9'', C CHR ''_'']"

text \<open>\<open>[a-zA-Z0-9_.\[\]()]\<close>, \<open>[a-zA-Z0-9_.\[\]()!]\<close> and \<open>[a-zA-Z0-9_.\[\]()<>=!\s]\<close>.\<close>

definition recv_plain :: cls where
  "recv_plain = Pos [R CHR ''a'' CHR ''z'', R CHR ''A'' CHR ''Z'', R CHR ''0'' CHR ''9'', C CHR ''_'',
     C CHR ''.'', C CHR ''['', C CHR '']'', C CHR ''('', C CHR '')'']"

definition recv_bang :: cls where
  "recv_bang = Pos [R CHR ''a'' CHR ''z'', R CHR ''A'' CHR ''Z'', R CHR ''0'' CHR ''9'', C CHR ''_'',
     C CHR ''.'', C CHR ''['', C CHR '']'', C CHR ''('', C CHR '')'', C CHR ''!'']"

definition recv_cmp :: cls where
  "recv_cmp = Pos [R CHR ''a'' CHR ''z'', R CHR ''A'' CHR ''Z'', R CHR ''0'' CHR ''9'', C CHR ''_'',
     C CHR ''.'', C CHR ''['', C CHR '']'', C CHR ''('', C CHR '')'', C CHR ''<'', C CHR ''>'',
     C CHR ''='', C CHR ''!'', Space]"

text \<open>\<open>([a-zA-Z_]c*?)\<close> for a receiver class \<open>c\<close>, and the identifier \<open>([a-zA-Z_][a-zA-Z0-9_]*?)\<close>.\<close>

definition receiver :: "cls \<Rightarrow> atom list" where
  "receiver c = capture [One ident_start, Lazy c]"

definition ident :: "atom list" where
  "ident = capture [One ident_start, Lazy ident_char]"

text \<open>\<open>[^)]\<close>, \<open>[^,]\<close>, \<open>[^:]\<close>, \<open>[^"]\<close>, and the argument capture \<open>([^)]+)\<close>.\<close>

definition not_rparen :: cls where "not_rparen = Neg [C CHR '')'']"
definition not_comma :: cls where "not_comma = Neg [C CHR '','']"
definition not_colon :: cls where "not_colon = Neg [C CHR '':'']"
definition not_dq :: cls where "not_dq = Neg [C dq]"

definition arg :: "atom list" where
  "arg = capture (one_or_more not_rparen)"

subsection \<open>fix_all_should.py\<close>

definition rules_all :: "rule list" where
  "rules_all =
   [(receiver recv_plain @ [Lit ''.Should().NotBeNull()''], [T ''Assert.NotNull('', G 1, T '')'']),
    (receiver recv_plain @ [Lit ''.Should().BeNull()''], [T ''Assert.Null('', G 1, T '')'']),
    (receiver recv_plain @ [Lit ''.Should().Be(''] @ arg @ [Lit '')''],
       [T ''Assert.Equal('', G 2, T '', '', G 1, T '')'']),
    (receiver recv_plain @ [Lit ''.Should().BeTrue()''], [T ''Assert.True('', G 1, T '')'']),
    (receiver recv_plain @ [Lit ''.Should().BeFalse()''], [T ''Assert.False('', G 1, T '')'']),
    (receiver recv_plain @ [Lit ''.Should().Contain(''] @ arg @ [Lit '')''],
       [T ''Assert.Contains('', G 2, T '', '', G 1, T '')'']),
    (receiver recv_plain @ [Lit ''.Should().NotContain(''] @ arg @ [Lit '')''],
       [T ''Assert.DoesNotContain('', G 2, T '', '', G 1, T '')'']),
    (receiver recv_plain @ [Lit ''.Should().HaveCount(''] @ arg @ [Lit '')''],
       [T ''Assert.Equal('', G 2, T '', '', G 1, T ''.Count)'']),
    (receiver recv_plain @ [Lit ''.Should().BeEmpty()''], [T ''Assert.Empty('', G 1, T '')'']),
    (receiver recv_plain @ [Lit ''.Should().NotBeEmpty()''], [T ''Assert.NotEmpty('', G 1, T '')'']),
    (receiver recv_plain @ [Lit ''.Should().BeGreaterThan(''] @ arg @ [Lit '')''],
       [T ''Assert.True('', G 1, T '' > '', G 2, T '')'']),
    (receiver recv_plain @ [Lit ''.Should().BeLessThan(''] @ arg @ [Lit '')''],
       [T ''Assert.True('', G 1, T '' < '', G 2, T '')'']),
    (receiver recv_plain @ [Lit ''.Should().BeGreaterOrEqualTo(''] @ arg @ [Lit '')''],
       [T ''Assert.True('', G 1, T '' >= '', G 2, T '')'']),
    (receiver recv_plain @ [Lit ''.Should().StartWith(''] @ arg @ [Lit '')''],
       [T ''Assert.StartsWith('', G 2, T '', '', G 1, T '')'']),
    (receiver recv_plain @ [Lit ''.Should().EndWith(''] @ arg @ [Lit '')''],
       [T ''Assert.EndsWith('', G 2, T '', '', G 1, T '')'']),
    (receiver recv_plain @ [Lit ''.Should().BeEquivalentTo(''] @ arg @ [Lit '')''],
       [T ''Assert.Equal('', G 2, T '', '', G 1, T '')'']),
    (receiver recv_plain @ [Lit ''.Should().NotBe(''] @ arg @ [Lit '')''],
       [T ''Assert.NotEqual('', G 2, T '', '', G 1, T '')'']),
    (ident @ [Lit ''.Assert.Contains(''] @ capture (one_or_more not_comma) @ [Lit '', ''] @ ident @ [Lit '')''],
       [T ''Assert.Contains('', G 2, T '', '', G 1, T ''.'', G 3, T '')'']),
    (ident @ [Lit ''.Assert.Equal(''] @ capture (one_or_more not_comma) @ [Lit '', ''] @ ident @ [Lit '')''],
       [T ''Assert.Equal('', G 2, T '', '', G 1, T ''.'', G 3, T '')'']),
    ([Lit ''pingHits.Assert.Contains(''] @ arg @ [Lit '')''],
       [T ''Assert.Contains('', G 1, T '', pingHits)'']),
    ([Lit ''pongHits.Assert.Contains(''] @ arg @ [Lit '')''],
       [T ''Assert.Contains('', G 1, T '', pongHits)''])]"

definition fix_all_should_patterns :: "string \<Rightarrow> string" where
  "fix_all_should_patterns content = apply_rules rules_all content"

subsection \<open>fix_complex_should.py\<close>

definition rules_complex :: "rule list" where
  "rules_complex =
   [(receiver recv_plain @ [Lit ''.Contains(''] @ arg @ [Lit '').Should().BeTrue()''],
       [T ''Assert.Contains('', G 2, T '', '', G 1, T '')'']),
    (receiver recv_plain @ [Lit ''.Contains(''] @ arg @ [Lit '').Should().BeFalse()''],
       [T ''Assert.DoesNotContain('', G 2, T '', '', G 1, T '')'']),
    (receiver recv_cmp @ [Lit ''.Should().BeTrue()''], [T ''Assert.True('', G 1, T '')'']),
    (receiver recv_cmp @ [Lit ''.Should().BeFalse()''], [T ''Assert.False('', G 1, T '')'']),
    (receiver recv_bang @ [Lit ''.Should().NotBeNull()''], [T ''Assert.NotNull('', G 1, T '')'']),
    (receiver recv_bang @ [Lit ''.Should().BeNull()''], [T ''Assert.Null('', G 1, T '')'']),
    (receiver recv_bang @ [Lit ''.Should().Be(''] @ arg @ [Lit '')''],
       [T ''Assert.Equal('', G 2, T '', '', G 1, T '')'']),
    (receiver recv_bang @ [Lit ''.Should().NotBe(''] @ arg @ [Lit '')''],
       [T ''Assert.NotEqual('', G 2, T '', '', G 1, T '')'']),
    (receiver recv_bang @ [Lit ''.Should().Contain(''] @ arg @ [Lit '')''],
       [T ''Assert.Contains('', G 2, T '', '', G 1, T '')'']),
    (receiver recv_bang @ [Lit ''.Should().HaveCount(''] @ arg @ [Lit '')''],
       [T ''Assert.Equal('', G 2, T '', '', G 1, T ''.Count)'']),
    (receiver recv_bang @ [Lit ''.Should().StartWith(''] @ arg @ [Lit '')''],
       [T ''Assert.StartsWith('', G 2, T '', '', G 1, T '')'']),
    (receiver recv_bang @ [Lit ''.Should().EndWith(''] @ arg @ [Lit '')''],
       [T ''Assert.EndsWith('', G 2, T '', '', G 1, T '')'']),
    ([Lit ''(''] @ arg @ [Star (Pos [Space]), Lit ''!='', Star (Pos [Space]), Lit ''null'',
        Star (Pos [Space]), Lit ''?'', Star (Pos [Space])] @ capture (one_or_more not_colon)
      @ [Star (Pos [Space]), Lit '':'', Star (Pos [Space])] @ arg
      @ [Lit '').Should().Be(''] @ arg @ [Lit '')''],
       [T ''Assert.Equal('', G 4, T '', '', G 1, T '' != null ? '', G 2, T '' : '', G 3, T '')''])]"

definition fix_complex_should_patterns :: "string \<Rightarrow> string" where
  "fix_complex_should_patterns content = apply_rules rules_complex content"

subsection \<open>fix_final_should.py\<close>

definition rules_final :: "rule list" where
  "rules_final =
   [(receiver recv_bang @ [Lit ''.Should().NotBeNull()''], [T ''Assert.NotNull('', G 1, T '')'']),
    (receiver recv_bang @ [Lit ''.Should().BeNull()''], [T ''Assert.Null('', G 1, T '')'']),
    (receiver recv_bang @ [Lit ''.Should().Be(''] @ arg @ [Lit '')''],
       [T ''Assert.Equal('', G 2, T '', '', G 1, T '')'']),
    (receiver recv_bang @ [Lit ''.Should().NotBe(''] @ arg @ [Lit '')''],
       [T ''Assert.NotEqual('', G 2, T '', '', G 1, T '')'']),
    (receiver recv_bang @ [Lit ''.Should().Contain(''] @ arg @ [Lit '')''],
       [T ''Assert.Contains('', G 2, T '', '', G 1, T '')'']),
    (receiver recv_bang @ [Lit ''.Should().BeGreaterThan(''] @ arg @ [Lit '')''],
       [T ''Assert.True('', G 1, T '' > '', G 2, T '')'']),
    (receiver recv_bang @ [Lit ''.Should().BeGreaterThanOrEqualTo(''] @ arg @ [Lit '')''],
       [T ''Assert.True('', G 1, T '' >= '', G 2, T '')'']),
    (receiver recv_bang @ [Lit ''.Should().BeLessThan(''] @ arg @ [Lit '')''],
       [T ''Assert.True('', G 1, T '' < '', G 2, T '')'']),
    (receiver recv_bang @ [Lit ''.Should().BeLessThanOrEqualTo(''] @ arg @ [Lit '')''],
       [T ''Assert.True('', G 1, T '' <= '', G 2, T '')'']),
    (receiver recv_bang @ [Lit ''.Should().BeTrue('', Star not_rparen, Lit '')''],
       [T ''Assert.True('', G 1, T '')'']),
    (receiver recv_bang @ [Lit ''.Should().BeFalse('', Star not_rparen, Lit '')''],
       [T ''Assert.False('', G 1, T '')'']),
    ([Lit ''(''] @ capture [Star not_rparen, Lit ''is'', Star not_rparen, Lit ''?'', Star not_rparen,
        Lit '':'', Star not_rparen] @ [Lit '').Should().Be(''] @ arg @ [Lit '')''],
       [T ''Assert.Equal('', G 2, T '', '', G 1, T '')''])]"

definition fix_final_should_patterns :: "string \<Rightarrow> string" where
  "fix_final_should_patterns content = apply_rules rules_final content"

subsection \<open>fix_remaining_should.py\<close>

definition digits :: "atom list" where
  "digits = capture (one_or_more (Pos [Digit]))"

text \<open>\<open>"([^"]+)"\<close>.\<close>

definition quoted :: "atom list" where
  "quoted = [Lit [dq]] @ capture (one_or_more not_dq) @ [Lit [dq]]"

definition rules_remaining :: "rule list" where
  \<open>rules_remaining =
   [([Lit ''_contextValues["counter"].Should().Be(''] @ digits @ [Lit '')''],
       [T ''Assert.Equal('', G 1, T '', _contextValues["counter"])'']),
    ([Lit ''_stateMachine.ContextMap!["value"].Should().Be(''] @ quoted @ [Lit '')''],
       [T ''Assert.Equal("'', G 1, T ''", _stateMachine.ContextMap!["value"])'']),
    ([Lit ''_stateMachine.ContextMap["value"].Should().Be(''] @ quoted @ [Lit '')''],
       [T ''Assert.Equal("'', G 1, T ''", _stateMachine.ContextMap["value"])'']),
    ([Lit ''(''] @ capture [One ident_start, Star ident_char]
      @ [Lit '' is Newtonsoft.Json.Linq.JValue ''] @ capture [One ident_start, Star ident_char]
      @ [Lit '' ? '', Backref 2, Lit ''.ToObject<int>() : (int)('', Backref 1,
         Lit '' ?? 0)).Should().Be(''] @ digits @ [Lit '')''],
       [T ''Assert.Equal('', G 3, T '', '', G 1, T '' is Newtonsoft.Json.Linq.JValue '', G 2,
        T '' ? '', G 2, T ''.ToObject<int>() : (int)('', G 1, T '' ?? 0))'']),
    ([Lit ''_stateMachine.ContextMap!["data"].Should().Be(''] @ quoted @ [Lit '')''],
       [T ''Assert.Equal("'', G 1, T ''", _stateMachine.ContextMap!["data"])''])]\<close>

definition fix_remaining_patterns :: "string \<Rightarrow> string" where
  "fix_remaining_patterns content = apply_rules rules_remaining content"

subsection \<open>fix_integration_tests.py\<close>





section \<open>The quote normalizers\<close>

subsection \<open>replace_quotes.py\<close>

definition rules_quotes :: "rule list" where
  "rules_quotes =
   [([Lit [dq, dq]] @ capture (one_or_more not_dq) @ [Lit [dq, dq]], [T [sq], G 1, T [sq]]),
    ([Lit [dq]] @ capture (one_or_more not_dq) @ [Lit [dq, CHR '':''], Star (Pos [Space]), Lit [dq]]
      @ capture (one_or_more not_dq) @ [Lit [dq]],
       [T [sq], G 1, T ([sq] @ '': '' @ [sq]), G 2, T [sq]])]"

definition replace_double_quotes_in_json :: "string \<Rightarrow> string" where
  "replace_double_quotes_in_json content = apply_rules rules_quotes content"

subsection \<open>replace_all_quotes.py\<close>

text \<open>\<open>content.split('\n')\<close> and \<open>'\n'.join(lines)\<close>.\<close>

fun split_lines :: "string \<Rightarrow> string list" where
  "split_lines [] = [[]]"
| "split_lines (x # xs) =
     (if x = newline then [] # split_lines xs
      else (case split_lines xs of [] \<Rightarrow> [[x]] | l # ls \<Rightarrow> (x # l) # ls))"

fun join_lines :: "string list \<Rightarrow> string" where
  "join_lines [] = []"
| "join_lines [l] = l"
| "join_lines (l # ls) = l @ newline # join_lines ls"

text \<open>
  \<open>s.replace(old, new)\<close>: every non-overlapping occurrence, left to right. For an empty
  \<open>old\<close> Python inserts \<open>new\<close> before every character and at the end.
\<close>

fun str_replace :: "string \<Rightarrow> string \<Rightarrow> string \<Rightarrow> string" where
  "str_replace old new [] = (if old = [] then new else [])"
| "str_replace old new (x # xs) =
     (case strip_prefix old (x # xs) of
        Some rest \<Rightarrow>
          if length rest < length (x # xs) then new @ str_replace old new rest
          else new @ x # str_replace old new xs
      | None \<Rightarrow> x # str_replace old new xs)"

definition json_markers :: "string list" where
  "json_markers = [[dq, dq], [CHR ''@'', dq], ''json'', ''script'', ''Script'', ''stateMachine'']"

definition temp_escaped :: string where
  "temp_escaped = ''__TEMP_ESCAPED__''"

definition fix_line :: "string \<Rightarrow> string" where
  "fix_line line =
     (if list_ex (\<lambda>pattern. contains pattern line) json_markers
      then str_replace temp_escaped [bslash, dq]
             (str_replace [dq, dq] [sq]
               (str_replace [bslash, dq, dq] temp_escaped line))
      else line)"

definition replace_double_quotes_comprehensive :: "string \<Rightarrow> string" where
  "replace_double_quotes_comprehensive content = join_lines (map fix_line (split_lines content))"


section \<open>Reading, rewriting and writing files\<close>

text \<open>
  The file system is a map from paths to contents. Every \<open>f.write\<close> is also recorded, in
  order, in \<open>writes\<close>, so that writing a file back with the content it already has is
  visible. \<open>stdout\<close> holds what the scripts print. Opening a path that is not in the map
  raises; the fluent-assertion scripts do not catch it, the quote scripts do.
\<close>

datatype msg = Fixed string | Modified string | ErrorProcessing string | Found nat | Total nat
  | FixedAll

datatype error = IOError string

record world =
  files :: "string \<rightharpoonup> string"
  writes :: "(string \<times> string) list"
  stdout :: "msg list"

definition write_file :: "string \<Rightarrow> string \<Rightarrow> world \<Rightarrow> world" where
  "write_file path content w = w\<lparr>files := (files w)(path \<mapsto> content), writes := writes w @ [(path, content)]\<rparr>"

definition print :: "msg \<Rightarrow> world \<Rightarrow> world" where
  "print m w = w\<lparr>stdout := stdout w @ [m]\<rparr>"

text \<open>A \<open>for\<close> loop over paths whose body may raise; the state is the world and a counter.\<close>

fun for_each :: "(string \<Rightarrow> world \<times> nat \<Rightarrow> error + world \<times> nat) \<Rightarrow> string list
    \<Rightarrow> world \<times> nat \<Rightarrow> error + world \<times> nat" where
  "for_each body [] st = Inr st"
| "for_each body (p # ps) st = (case body p st of Inl e \<Rightarrow> Inl e | Inr st' \<Rightarrow> for_each body ps st')"

text \<open>
  The loop body shared by fix_all_should.py, fix_complex_should.py and fix_final_should.py:
  \<open>skip\<close> is the substring pre-check and \<open>fix\<close> the rewrite function of the script.
\<close>

definition fix_file :: "(string \<Rightarrow> bool) \<Rightarrow> (string \<Rightarrow> string) \<Rightarrow> string \<Rightarrow> world \<times> nat
    \<Rightarrow> error + world \<times> nat" where
  "fix_file skip fix file_path st =
     (case st of (w, fixed_count) \<Rightarrow>
        if \<not> endswith file_path ''.cs'' then Inr (w, fixed_count)
        else (case files w file_path of
                None \<Rightarrow> Inl (IOError file_path)
              | Some original \<Rightarrow>
                  if skip original then Inr (w, fixed_count)
                  else let content = fix original in
                    if content \<noteq> original
                    then Inr (print (Fixed file_path) (write_file file_path content w), fixed_count + 1)
                    else Inr (w, fixed_count)))"

definition fix_script :: "(string \<Rightarrow> bool) \<Rightarrow> (string \<Rightarrow> string) \<Rightarrow> string list \<Rightarrow> world
    \<Rightarrow> error + world" where
  "fix_script skip fix walk w =
     (case for_each (fix_file skip fix) walk (w, 0) of
        Inl e \<Rightarrow> Inl e
      | Inr (w', fixed_count) \<Rightarrow> Inr (print (Total fixed_count) w'))"

definition fix_all_should_main :: "string list \<Rightarrow> world \<Rightarrow> error + world" where
  "fix_all_should_main =
     fix_script (\<lambda>content. \<not> contains ''.Should()'' content \<and> \<not> contains ''.Assert.'' content)
       fix_all_should_patterns"

definition fix_complex_should_main :: "string list \<Rightarrow> world \<Rightarrow> error + world" where
  "fix_complex_should_main =
     fix_script (\<lambda>content. \<not> contains ''.Should()'' content) fix_complex_should_patterns"

definition fix_final_should_main :: "string list \<Rightarrow> world \<Rightarrow> error + world" where
  "fix_final_should_main =
     fix_script (\<lambda>content. \<not> contains ''.Should()'' content) fix_final_should_patterns"

text \<open>fix_remaining_should.py: two named files under \<open>test_dir\<close>, no pre-check.\<close>

definition test_dir :: string where
  "test_dir = ''C:'' @ [bslash] @ ''Develop25'' @ [bslash] @ ''XStateNet'' @ [bslash] @ ''Test''"

definition files_to_fix :: "string list" where
  "files_to_fix = [''UnitTest_InternalTransitions.cs'', ''UnitTest_InvokeServices.cs'']"

definition fix_remaining_file :: "string \<Rightarrow> world \<times> nat \<Rightarrow> error + world \<times> nat" where
  "fix_remaining_file file_name st =
     (case st of (w, fixed_count) \<Rightarrow>
        let file_path = test_dir @ [bslash] @ file_name in
        (case files w file_path of
           None \<Rightarrow> Inr (w, fixed_count)
         | Some original \<Rightarrow>
             let content = fix_remaining_patterns original in
             if content \<noteq> original
             then Inr (print (Fixed file_path) (write_file file_path content w), fixed_count + 1)
             else Inr (w, fixed_count)))"

definition fix_remaining_main :: "world \<Rightarrow> error + world" where
  "fix_remaining_main w =
     (case for_each fix_remaining_file files_to_fix (w, 0) of
        Inl e \<Rightarrow> Inl e
      | Inr (w', fixed_count) \<Rightarrow> Inr (print (Total fixed_count) w'))"



text \<open>\<open>process_file\<close> of replace_quotes.py; the caught exception prints and returns False.\<close>

definition process_file_quotes :: "string \<Rightarrow> world \<Rightarrow> world \<times> bool" where
  "process_file_quotes filepath w =
     (case files w filepath of
        None \<Rightarrow> (print (ErrorProcessing filepath) w, False)
      | Some content \<Rightarrow>
          if contains [dq, dq] content
          then let new_content = replace_double_quotes_in_json content in
            if new_content \<noteq> content then (write_file filepath new_content w, True) else (w, False)
          else (w, False))"

text \<open>\<open>os.path.basename\<close> for the Windows paths the scripts walk.\<close>

definition basename :: "string \<Rightarrow> string" where
  "basename path = rev (takeWhile (\<lambda>c. c \<noteq> bslash \<and> c \<noteq> CHR ''/'') (rev path))"

fun count_modified_quotes :: "string list \<Rightarrow> world \<times> nat \<Rightarrow> world \<times> nat" where
  "count_modified_quotes [] st = st"
| "count_modified_quotes (filepath # ps) (w, modified_count) =
     (case process_file_quotes filepath w of
        (w', True) \<Rightarrow> count_modified_quotes ps (print (Modified (basename filepath)) w', modified_count + 1)
      | (w', False) \<Rightarrow> count_modified_quotes ps (w', modified_count))"

definition main_quotes :: "string list \<Rightarrow> world \<Rightarrow> world" where
  "main_quotes walk w =
     (let cs_files = filter (\<lambda>file. endswith file ''.cs'') walk;
          (w', modified_count) = count_modified_quotes cs_files (print (Found (length cs_files)) w, 0)
      in print (Total modified_count) w')"

text \<open>\<open>process_file\<close> of replace_all_quotes.py, which also writes a backup.\<close>

definition process_file_all_quotes :: "string \<Rightarrow> world \<Rightarrow> world \<times> bool" where
  "process_file_all_quotes filepath w =
     (case files w filepath of
        None \<Rightarrow> (print (ErrorProcessing filepath) w, False)
      | Some content \<Rightarrow>
          if contains [dq, dq] content
          then let new_content = replace_double_quotes_comprehensive content in
            if new_content \<noteq> content
            then (print (Modified (basename filepath))
                    (write_file filepath new_content (write_file (filepath @ ''.bak'') content w)), True)
            else (w, False)
          else (w, False))"

fun count_modified_all_quotes :: "string list \<Rightarrow> world \<times> nat \<Rightarrow> world \<times> nat" where
  "count_modified_all_quotes [] st = st"
| "count_modified_all_quotes (filepath # ps) (w, modified_count) =
     (case process_file_all_quotes filepath w of
        (w', True) \<Rightarrow> count_modified_all_quotes ps (w', modified_count + 1)
      | (w', False) \<Rightarrow> count_modified_all_quotes ps (w', modified_count))"

definition main_all_quotes :: "string list \<Rightarrow> world \<Rightarrow> world" where
  "main_all_quotes walk w =
     (let cs_files = filter (\<lambda>file. endswith file ''.cs'') walk;
          (w', modified_count) = count_modified_all_quotes cs_files (print (Found (length cs_files)) w, 0)
      in print (Total modified_count) w')"


section \<open>Auxiliary notions for the proofs\<close>

text \<open>A pattern needs \<open>m\<close> when one of its literal runs contains \<open>m\<close>.\<close>

definition needs :: "string \<Rightarrow> atom list \<Rightarrow> bool" where
  "needs m p = list_ex (\<lambda>a. case a of Lit l \<Rightarrow> contains m l | _ \<Rightarrow> False) p"

definition all_need :: "string list \<Rightarrow> rule list \<Rightarrow> bool" where
  "all_need ms rules = list_all (\<lambda>r. list_ex (\<lambda>m. needs m (fst r)) ms) rules"


text \<open>The strings \<open>[a-zA-Z_]c*\<close> that the receiver capture of class \<open>c\<close> can take.\<close>

definition is_receiver :: "cls \<Rightarrow> string \<Rightarrow> bool" where
  "is_receiver c r = (case r of [] \<Rightarrow> False | x # xs \<Rightarrow> accepts ident_start x \<and> list_all (accepts c) xs)"

section \<open>Properties of the matcher\<close>

subsection \<open>Literal runs\<close>


lemma strip_prefix_Some_iff: "strip_prefix l s = Some r \<longleftrightarrow> s = l @ r"
  by (induction l s rule: strip_prefix.induct) auto

lemma strip_prefix_None_iff: "strip_prefix l s = None \<longleftrightarrow> (\<forall>r. s \<noteq> l @ r)"
  using strip_prefix_Some_iff [of l s] by (cases "strip_prefix l s") auto

lemma strip_prefix_append [simp]: "strip_prefix l (l @ s) = Some s"
  by (simp add: strip_prefix_Some_iff)

lemma contains_iff: "contains l s \<longleftrightarrow> (\<exists>a b. s = a @ l @ b)"
proof (induction s)
  case Nil
  then show ?case by auto
next
  case (Cons x xs)
  show ?case
  proof
    assume "contains l (x # xs)"
    then consider "strip_prefix l (x # xs) \<noteq> None" | "contains l xs" by auto
    then show "\<exists>a b. x # xs = a @ l @ b"
    proof cases
      case 1
      then obtain r where "x # xs = l @ r" by (auto simp: strip_prefix_Some_iff)
      then have "x # xs = [] @ l @ r" by simp
      then show ?thesis by blast
    next
      case 2
      then obtain a b where "xs = a @ l @ b" using Cons.IH by auto
      then have "x # xs = (x # a) @ l @ b" by simp
      then show ?thesis by blast
    qed
  next
    assume "\<exists>a b. x # xs = a @ l @ b"
    then obtain a b where ab: "x # xs = a @ l @ b" by auto
    show "contains l (x # xs)"
    proof (cases a)
      case Nil
      then have "strip_prefix l (x # xs) = Some b" using ab by (simp add: strip_prefix_Some_iff)
      then show ?thesis by simp
    next
      case (Cons y ys)
      then have "xs = ys @ l @ b" using ab by simp
      then have "contains l xs" using Cons.IH by blast
      then show ?thesis by simp
    qed
  qed
qed


lemma contains_appendI2: "contains l b \<Longrightarrow> contains l (a @ b)"
  by (induction a) auto

lemma contains_ConsI: "contains l xs \<Longrightarrow> contains l (x # xs)"
  by simp

lemma match_contains_lit:
  "match p s st = Some res \<Longrightarrow> Lit l \<in> set p \<Longrightarrow> contains l s"
proof (induction p s st arbitrary: res rule: match.induct)
  case (1 s caps mark)
  then show ?case by simp
next
  case (2 l' p s st)
  then obtain s' where s': "strip_prefix l' s = Some s'" and m: "match p s' st = Some res"
    by (auto split: option.splits)
  have s: "s = l' @ s'" using s' by (simp add: strip_prefix_Some_iff)
  show ?case
  proof (cases "l = l'")
    case True
    have "s = [] @ l @ s'" using s True by simp
    then show ?thesis unfolding contains_iff by blast
  next
    case False
    then have "Lit l \<in> set p" using "2.prems"(2) by simp
    then have "contains l s'" using "2.IH"[OF s' m] by simp
    then show ?thesis using s contains_appendI2 by simp
  qed
next
  case (3 c p s st)
  then obtain x xs where s: "s = x # xs" and a: "accepts c x" and m: "match p xs st = Some res"
    by (auto split: list.splits if_splits)
  have "Lit l \<in> set p" using "3.prems"(2) by simp
  then have "contains l xs" using "3.IH"[OF s a m] by simp
  then show ?case using s by simp
next
  case (4 c p s st)
  have lp: "Lit l \<in> set p" using "4.prems"(2) by simp
  show ?case
  proof (cases s)
    case Nil
    then have "match p [] st = Some res" using "4.prems"(1) by simp
    then show ?thesis using "4.IH"(1)[OF Nil] lp Nil by simp
  next
    case (Cons x xs)
    show ?thesis
    proof (cases "accepts c x")
      case True
      show ?thesis
      proof (cases "match (Star c # p) xs st")
        case None
        then have "match p (x # xs) st = Some res" using "4.prems"(1) Cons True by simp
        then show ?thesis using "4.IH"(3)[OF Cons True None] lp Cons by simp
      next
        case (Some r)
        then have "contains l xs" using "4.IH"(2)[OF Cons True Some] "4.prems"(2) by simp
        then show ?thesis using Cons by simp
      qed
    next
      case False
      then have "match p (x # xs) st = Some res" using "4.prems"(1) Cons by simp
      then show ?thesis using "4.IH"(4)[OF Cons False] lp Cons by simp
    qed
  qed
next
  case (5 c p s st)
  have lp: "Lit l \<in> set p" using "5.prems"(2) by simp
  show ?case
  proof (cases "match p s st")
    case (Some r)
    then show ?thesis using "5.IH"(1) lp by simp
  next
    case None
    then obtain x xs where s: "s = x # xs" and a: "accepts c x" and m: "match (Lazy c # p) xs st = Some res"
      using "5.prems"(1) by (auto split: list.splits if_splits)
    have "contains l xs" using "5.IH"(2)[OF None s a m] "5.prems"(2) by simp
    then show ?thesis using s by simp
  qed
next
  case (6 p s caps mark)
  then show ?case by simp
next
  case (7 p s caps mark)
  then show ?case by simp
next
  case (8 n p s caps mark)
  then obtain s' where s': "strip_prefix (caps ! (n - 1)) s = Some s'" and m: "match p s' (caps, mark) = Some res"
     and n: "1 \<le> n \<and> n \<le> length caps"
    by (auto split: option.splits if_splits)
  have "contains l s'" using "8.IH"[OF n s' m] "8.prems"(2) by simp
  then show ?case using s' contains_appendI2 by (auto simp: strip_prefix_Some_iff)
qed

lemma match_Nil_lit: "Lit l \<in> set p \<Longrightarrow> \<not> contains l s \<Longrightarrow> match p s st = None"
  using match_contains_lit[of p s st _ l] by (cases "match p s st") auto

lemma re_sub_noop:
  "Lit l \<in> set p \<Longrightarrow> \<not> contains l s \<Longrightarrow> re_sub p t s = s"
proof (induction s)
  case Nil
  then have "match p [] ([], []) = None" by (rule match_Nil_lit)
  then show ?case by (subst re_sub.simps) simp
next
  case (Cons x xs)
  then have "match p (x # xs) ([], x # xs) = None" by (intro match_Nil_lit)
  moreover have "re_sub p t xs = xs" using Cons by simp
  ultimately show ?case by (subst re_sub.simps) simp
qed


lemma contains_trans: "contains m l \<Longrightarrow> contains l s \<Longrightarrow> contains m s"
proof -
  assume "contains m l" "contains l s"
  then obtain a b c d where "l = a @ m @ b" "s = c @ l @ d" unfolding contains_iff by blast
  then have "s = (c @ a) @ m @ (b @ d)" by simp
  then show ?thesis unfolding contains_iff by blast
qed

lemma rule_noop: "needs m p \<Longrightarrow> \<not> contains m s \<Longrightarrow> re_sub p t s = s"
proof -
  assume n: "needs m p" and c: "\<not> contains m s"
  from n obtain a where a: "a \<in> set p" and ca: "case a of Lit l \<Rightarrow> contains m l | _ \<Rightarrow> False"
    unfolding needs_def list_ex_iff by blast
  from ca obtain l where l: "a = Lit l" "contains m l" by (cases a) auto
  have "\<not> contains l s" using c l(2) contains_trans by blast
  then show ?thesis using a l(1) re_sub_noop by blast
qed

lemma apply_rules_Nil [simp]: "apply_rules [] s = s"
  by (simp add: apply_rules_def)

lemma apply_rules_Cons [simp]: "apply_rules ((p, t) # rs) s = apply_rules rs (re_sub p t s)"
  by (simp add: apply_rules_def)

lemma apply_rules_append: "apply_rules (rs @ rs') s = apply_rules rs' (apply_rules rs s)"
  by (simp add: apply_rules_def)

lemma apply_rules_noop:
  "all_need ms rules \<Longrightarrow> \<forall>m\<in>set ms. \<not> contains m s \<Longrightarrow> apply_rules rules s = s"
proof (induction rules)
  case Nil
  then show ?case by simp
next
  case (Cons r rs)
  obtain p t where r: "r = (p, t)" by (cases r)
  from Cons.prems(1) obtain m where m: "m \<in> set ms" "needs m p" and rest: "all_need ms rs"
    unfolding all_need_def r list_ex_iff by auto
  have "re_sub p t s = s" using m Cons.prems(2) rule_noop by blast
  then show ?case using Cons.IH[OF rest Cons.prems(2)] r by simp
qed

lemma all_need_rules_all: "all_need [''.Should()'', ''.Assert.''] rules_all"
  by code_simp


lemma all_need_rules_complex: "all_need [''.Should()''] rules_complex"
  by code_simp

lemma all_need_rules_final: "all_need [''.Should()''] rules_final"
  by code_simp

subsection \<open>Quantifiers and captures that match exactly one way\<close>


lemma match_Lit_append [simp]: "match (Lit l # p) (l @ s) st = match p s st"
  by simp

lemma match_Star_exact:
  "\<forall>x\<in>set xs. accepts c x \<Longrightarrow> s = [] \<or> \<not> accepts c (hd s) \<Longrightarrow> match p s st = Some res
   \<Longrightarrow> match (Star c # p) (xs @ s) st = Some res"
proof (induction xs)
  case Nil
  then show ?case by (cases s) auto
next
  case (Cons x xs)
  then show ?case by simp
qed

lemma match_Lazy_exact:
  "\<forall>x\<in>set xs. accepts c x \<Longrightarrow> (\<And>a b. xs = a @ b \<Longrightarrow> b \<noteq> [] \<Longrightarrow> match p (b @ s) st = None)
   \<Longrightarrow> match p s st = Some res \<Longrightarrow> match (Lazy c # p) (xs @ s) st = Some res"
proof (induction xs)
  case Nil
  then show ?case by simp
next
  case (Cons x xs)
  have "match p ((x # xs) @ s) st = None" using Cons.prems(2)[of "[]" "x # xs"] by simp
  moreover have "match (Lazy c # p) (xs @ s) st = Some res"
  proof (rule Cons.IH)
    show "\<forall>x\<in>set xs. accepts c x" using Cons.prems(1) by simp
    show "match p (b @ s) st = None" if "xs = a @ b" "b \<noteq> []" for a b
      using Cons.prems(2)[of "x # a" b] that by simp
    show "match p s st = Some res" by (rule Cons.prems(3))
  qed
  ultimately show ?case using Cons.prems(1) by simp
qed

lemma take_mark [simp]: "take (length (xs @ s) - length s) (xs @ s) = xs"
  by simp

lemma match_capture_plus:
  assumes "xs \<noteq> []" "\<forall>x\<in>set xs. accepts c x" "s = [] \<or> \<not> accepts c (hd s)"
    and "match p s (caps @ [xs], xs @ s) = Some res"
  shows "match (capture (one_or_more c) @ p) (xs @ s) (caps, mark) = Some res"
proof -
  obtain y ys where xs: "xs = y # ys" using assms(1) by (cases xs) auto
  have "match (Close # p) s (caps, xs @ s) = Some res"
    using assms(4) by simp
  then have "match (Star c # Close # p) (ys @ s) (caps, xs @ s) = Some res"
    using match_Star_exact[of ys c s "Close # p"] assms(2,3) xs by simp
  then show ?thesis using assms(2) xs by (simp add: capture_def one_or_more_def)
qed

lemma match_receiver_lit:
  assumes "accepts ident_start x" "\<forall>y\<in>set xs. accepts c y"
    and "\<And>a b. xs = a @ b \<Longrightarrow> b \<noteq> [] \<Longrightarrow> strip_prefix M (b @ M @ s) = None"
    and "match p s (caps @ [x # xs], x # xs @ M @ s) = Some res"
  shows "match (receiver c @ Lit M # p) (x # xs @ M @ s) (caps, mark) = Some res"
proof -
  let ?st = "(caps, x # xs @ M @ s)"
  have t: "take (length (x # xs @ M @ s) - length (M @ s)) (x # xs @ M @ s) = x # xs"
    using take_mark[of "x # xs" "M @ s"] by simp
  have "match (Close # Lit M # p) (M @ s) ?st = Some res"
    using assms(4) t by simp
  moreover have "match (Close # Lit M # p) (b @ M @ s) ?st = None" if "xs = a @ b" "b \<noteq> []" for a b
    using assms(3)[OF that] by simp
  ultimately have "match (Lazy c # Close # Lit M # p) (xs @ M @ s) ?st = Some res"
    using match_Lazy_exact[of xs c "Close # Lit M # p" "M @ s" ?st res] assms(2) by blast
  moreover have "match (receiver c @ Lit M # p) (x # xs @ M @ s) (caps, mark)
      = match (Lazy c # Close # Lit M # p) (xs @ M @ s) ?st"
    using assms(1) by (simp add: receiver_def capture_def del: match.simps(4,5))
  ultimately show ?thesis by simp
qed

lemma re_sub_Nil: "Lit (c # l) \<in> set p \<Longrightarrow> re_sub p t [] = []"
  by (rule re_sub_noop[of "c # l"]) auto

lemma re_sub_whole:
  assumes "match p s ([], s) = Some (caps, [])" "s \<noteq> []" "Lit (c # l) \<in> set p"
  shows "re_sub p t s = expand t caps"
  using assms re_sub_Nil[OF assms(3)] by (subst re_sub.simps) simp

subsection \<open>replace_quotes.py on an ordinary quoted pair\<close>


lemma strip_prefix_hd_neq: "l \<noteq> [] \<Longrightarrow> hd l \<noteq> x \<Longrightarrow> strip_prefix l (x # xs) = None"
  by (cases l) auto

lemma contains_skip: "l \<noteq> [] \<Longrightarrow> hd l \<notin> set a \<Longrightarrow> contains l (a @ b) = contains l b"
  by (induction a) (auto simp: strip_prefix_hd_neq)

lemma dq_neq [simp]: "dq \<noteq> CHR '':''" "dq \<noteq> CHR '' ''" "CHR '':'' \<noteq> dq" "CHR '' '' \<noteq> dq" "sq \<noteq> dq" "dq \<noteq> sq"
  by (simp_all add: dq_def sq_def)

lemma accepts_not_dq [simp]: "accepts not_dq c = (c \<noteq> dq)"
  by (simp add: not_dq_def)

lemma is_space_simps [simp]: "\<not> is_space dq" "is_space CHR '' ''"
  by (simp_all add: is_space_def dq_def)

lemma no_doubled_quote:
  assumes "k \<noteq> []" "v \<noteq> []" "dq \<notin> set k" "dq \<notin> set v"
  shows "\<not> contains [dq, dq] ([dq] @ k @ [dq] @ '': '' @ [dq] @ v @ [dq])"
proof -
  obtain k0 k' where k: "k = k0 # k'" using assms(1) by (cases k) auto
  obtain v0 v' where v: "v = v0 # v'" using assms(2) by (cases v) auto
  have 1: "\<not> contains [dq, dq] (v @ [dq])"
    using contains_skip[of "[dq, dq]" v "[dq]"] assms(4) by simp
  have 2: "\<not> contains [dq, dq] (dq # '': '' @ dq # v @ [dq])"
    using 1 v assms(4) by auto
  have 3: "\<not> contains [dq, dq] (k @ dq # '': '' @ dq # v @ [dq])"
    using contains_skip[of "[dq, dq]" k] assms(3) 2 by simp
  show ?thesis using 3 k assms(3) by auto
qed

lemma match_json_pair:
  assumes "k \<noteq> []" "v \<noteq> []" "dq \<notin> set k" "dq \<notin> set v"
  shows "match ([Lit [dq]] @ capture (one_or_more not_dq) @ [Lit [dq, CHR '':''], Star (Pos [Space]), Lit [dq]]
      @ capture (one_or_more not_dq) @ [Lit [dq]]) ([dq] @ k @ [dq] @ '': '' @ [dq] @ v @ [dq]) ([], mark)
    = Some ([k, v], [])"
proof -
  have a: "match (capture (one_or_more not_dq) @ [Lit [dq]]) (v @ [dq]) ([k], m) = Some ([k, v], [])" for m
    by (rule match_capture_plus) (use assms in auto)
  have b: "match (Star (Pos [Space]) # Lit [dq] # capture (one_or_more not_dq) @ [Lit [dq]]) ('' '' @ dq # v @ [dq]) ([k], m)
      = Some ([k, v], [])" for m
    by (rule match_Star_exact) (use a in auto)
  have c: "match (capture (one_or_more not_dq) @ [Lit [dq, CHR '':''], Star (Pos [Space]), Lit [dq]]
      @ capture (one_or_more not_dq) @ [Lit [dq]]) (k @ [dq] @ '': '' @ [dq] @ v @ [dq]) ([], m) = Some ([k, v], [])" for m
    by (rule match_capture_plus) (use assms b in \<open>auto simp del: match.simps(4)\<close>)
  show ?thesis using c by simp
qed


lemma in_set_appendI: "x \<in> set (a @ x # b)" by simp

text \<open>
  C9: for non-empty \<open>k\<close> and \<open>v\<close> without a double quote, the simple quote normalizer maps
  the text \<open>"k": "v"\<close> to \<open>'k': 'v'\<close>, although that text holds no doubled double quote;
  so it changes a buffer that the pre-check marker does not occur in.
\<close>

theorem json_pair:
  assumes "k \<noteq> []" "v \<noteq> []" "dq \<notin> set k" "dq \<notin> set v"
  shows "replace_double_quotes_in_json ([dq] @ k @ [dq] @ '': '' @ [dq] @ v @ [dq])
           = [sq] @ k @ [sq] @ '': '' @ [sq] @ v @ [sq]
       \<and> \<not> contains [dq, dq] ([dq] @ k @ [dq] @ '': '' @ [dq] @ v @ [dq])
       \<and> replace_double_quotes_in_json ([dq] @ k @ [dq] @ '': '' @ [dq] @ v @ [dq])
           \<noteq> [dq] @ k @ [dq] @ '': '' @ [dq] @ v @ [dq]"
proof -
  let ?s = "[dq] @ k @ [dq] @ '': '' @ [dq] @ v @ [dq]"
  let ?p1 = "[Lit [dq, dq]] @ capture (one_or_more not_dq) @ [Lit [dq, dq]]"
  let ?p2 = "[Lit [dq]] @ capture (one_or_more not_dq) @ [Lit [dq, CHR '':''], Star (Pos [Space]), Lit [dq]]
      @ capture (one_or_more not_dq) @ [Lit [dq]]"
  have nd: "\<not> contains [dq, dq] ?s" by (rule no_doubled_quote[OF assms])
  have 1: "re_sub ?p1 t ?s = ?s" for t
    by (rule re_sub_noop[OF _ nd]) simp
  have 2: "re_sub ?p2 t ?s = expand t [k, v]" for t
    by (rule re_sub_whole[OF match_json_pair[OF assms], where c = dq and l = "[]"]) simp_all
  have "replace_double_quotes_in_json ?s = [sq] @ k @ [sq] @ '': '' @ [sq] @ v @ [sq]"
    unfolding replace_double_quotes_in_json_def rules_quotes_def apply_rules_Cons apply_rules_Nil 1 2
    by simp
  then show ?thesis using nd by simp
qed


theorem json_pair_witness:
  "''a'' \<noteq> [] \<and> ''b'' \<noteq> [] \<and> dq \<notin> set ''a'' \<and> dq \<notin> set ''b''
   \<and> replace_double_quotes_in_json ([dq] @ ''a'' @ [dq] @ '': '' @ [dq] @ ''b'' @ [dq])
       = [sq] @ ''a'' @ [sq] @ '': '' @ [sq] @ ''b'' @ [sq]
   \<and> \<not> contains [dq, dq] ([dq] @ ''a'' @ [dq] @ '': '' @ [dq] @ ''b'' @ [dq])"
  using json_pair[of "''a''" "''b''"] by (simp add: dq_def)

subsection \<open>Where a literal can occur in a concatenation\<close>

lemma contains_set: "contains l s \<Longrightarrow> set l \<subseteq> set s"
  by (auto simp: contains_iff)

lemma contains_refl: "contains l l"
  unfolding contains_iff by (metis append_Nil append_Nil2)

lemma contains_Cons_mono: "\<not> contains l (x # xs) \<Longrightarrow> \<not> contains l xs"
  by auto

lemma strip_prefix_sep:
  "c \<notin> set l \<Longrightarrow> (strip_prefix l (a @ c # b) = None) = (strip_prefix l a = None)"
  by (induction l a rule: strip_prefix.induct) auto

lemma contains_sep:
  "c \<notin> set l \<Longrightarrow> contains l (a @ c # b) = (contains l a \<or> contains l b)"
proof (induction a)
  case Nil
  then show ?case by (cases l) auto
next
  case (Cons x a)
  have "(strip_prefix l ((x # a) @ c # b) = None) = (strip_prefix l (x # a) = None)"
    using Cons.prems by (rule strip_prefix_sep)
  then show ?case using Cons by auto
qed

lemma contains_snoc:
  assumes "m \<noteq> []" "contains (k @ m) (r @ [c])"
  shows "contains k r"
proof -
  obtain a b where ab: "r @ [c] = a @ (k @ m) @ b" using assms(2) unfolding contains_iff by blast
  let ?z = "m @ b"
  have z: "?z \<noteq> []" using assms(1) by simp
  then have "?z = butlast ?z @ [last ?z]" by simp
  then have "r @ [c] = (a @ k @ butlast ?z) @ [last ?z]" using ab by (metis append.assoc)
  then have "r = a @ k @ butlast ?z" by simp
  then show ?thesis unfolding contains_iff by blast
qed

lemma strip_prefix_straddle:
  assumes "q \<noteq> []" "\<not> contains K q" "K \<noteq> []" "hd K \<notin> set (tl K)" "tx \<noteq> []" "hd tx = hd K"
    and "strip_prefix K M \<noteq> None"
  shows "strip_prefix M (q @ tx) = None"
proof (rule ccontr)
  assume "strip_prefix M (q @ tx) \<noteq> None"
  then obtain z where z: "q @ tx = M @ z" by (auto simp: strip_prefix_Some_iff)
  obtain M' where M: "M = K @ M'" using assms(7) by (auto simp: strip_prefix_Some_iff)
  have "q @ tx = K @ (M' @ z)" using z M by simp
  then consider us where "q = K @ us" | us where "q @ us = K" "tx = us @ M' @ z"
    by (auto simp: append_eq_append_conv2)
  then show False
  proof cases
    case 1
    then have "q = [] @ K @ us" by simp
    then have "contains K q" unfolding contains_iff by blast
    then show False using assms(2) by simp
  next
    case 2
    show False
    proof (cases us)
      case Nil
      then have "K = q" using 2 by simp
      then show False using assms(2) contains_refl by simp
    next
      case (Cons u us')
      then have "hd tx = u" using 2 by simp
      moreover have "u \<in> set (tl K)" using 2(1) Cons assms(1) by (cases q) auto
      ultimately show False using assms(4,6) by simp
    qed
  qed
qed

lemma contains_straddle:
  assumes "\<not> contains K r" "K \<noteq> []" "hd K \<notin> set (tl K)" "tx \<noteq> []" "hd tx = hd K"
    and "strip_prefix K M \<noteq> None"
  shows "contains M (r @ tx) = contains M tx"
  using assms(1)
proof (induction r)
  case Nil
  then show ?case by simp
next
  case (Cons y ys)
  have "strip_prefix M ((y # ys) @ tx) = None"
    by (rule strip_prefix_straddle[OF _ Cons.prems assms(2-6)]) simp
  moreover have "contains M (ys @ tx) = contains M tx"
    using Cons.IH Cons.prems by auto
  ultimately show ?case by simp
qed

lemma strip_prefix_before_sep:
  "c \<notin> set q \<Longrightarrow> c \<in> set M \<Longrightarrow> strip_prefix M (q @ c # tx') \<noteq> None
   \<Longrightarrow> strip_prefix (tl (dropWhile (\<lambda>y. y \<noteq> c) M)) tx' \<noteq> None"
proof (induction q arbitrary: M)
  case Nil
  then show ?case by (cases M) (auto split: if_splits)
next
  case (Cons y ys)
  then show ?case by (cases M) (auto split: if_splits)
qed

lemma contains_before_sep:
  assumes "c \<notin> set i" "c \<in> set M" "contains M (i @ c # tx')"
  shows "strip_prefix (tl (dropWhile (\<lambda>y. y \<noteq> c) M)) tx' \<noteq> None \<or> contains M (c # tx')"
  using assms(1,3)
proof (induction i)
  case Nil
  then show ?case by simp
next
  case (Cons y ys)
  from Cons.prems(2) consider "strip_prefix M ((y # ys) @ c # tx') \<noteq> None" | "contains M (ys @ c # tx')"
    by auto
  then show ?case
  proof cases
    case 1
    then show ?thesis using strip_prefix_before_sep[OF Cons.prems(1) assms(2)] by blast
  next
    case 2
    then show ?thesis using Cons.IH Cons.prems(1) by simp
  qed
qed

subsection \<open>The receiver capture\<close>

lemma match_receiver_exact:
  assumes "is_receiver c r"
    and "\<And>a b. tl r = a @ b \<Longrightarrow> b \<noteq> [] \<Longrightarrow> strip_prefix M (b @ M @ s) = None"
    and "match p s (caps @ [r], r @ M @ s) = Some res"
  shows "match (receiver c @ Lit M # p) (r @ M @ s) (caps, mark) = Some res"
proof -
  obtain x xs where r: "r = x # xs" using assms(1) by (cases r) (auto simp: is_receiver_def)
  have "match (receiver c @ Lit M # p) (x # xs @ M @ s) (caps, mark) = Some res"
  proof (rule match_receiver_lit)
    show "accepts ident_start x" "\<forall>y\<in>set xs. accepts c y"
      using assms(1) r by (auto simp: is_receiver_def list_all_iff)
    show "strip_prefix M (b @ M @ s) = None" if "xs = a @ b" "b \<noteq> []" for a b
      using assms(2)[of a b] that r by simp
    show "match p s (caps @ [x # xs], x # xs @ M @ s) = Some res" using assms(3) r by simp
  qed
  then show ?thesis using r by simp
qed

lemma match_receiver_marker:
  assumes "is_receiver c r" "\<not> contains K r" "K \<noteq> []" "hd K \<notin> set (tl K)" "strip_prefix K M \<noteq> None"
    and "match p s (caps @ [r], r @ M @ s) = Some res"
  shows "match (receiver c @ Lit M # p) (r @ M @ s) (caps, mark) = Some res"
proof (rule match_receiver_exact[OF assms(1) _ assms(6)])
  fix a b assume ab: "tl r = a @ b" "b \<noteq> []"
  obtain M' where M: "M = K @ M'" using assms(5) by (auto simp: strip_prefix_Some_iff)
  have r: "r = (hd r # a) @ b" using ab assms(1) by (cases r) (auto simp: is_receiver_def)
  have nb: "\<not> contains K b" using assms(2) contains_appendI2[of K b "hd r # a"] r by metis
  show "strip_prefix M (b @ M @ s) = None"
    by (rule strip_prefix_straddle[OF ab(2) nb assms(3,4) _ _ assms(5)]) (use M assms(3) in auto)
qed

lemma match_receiver_class:
  assumes "is_receiver c r" "M \<noteq> []" "\<not> accepts c (hd M)"
    and "match p s (caps @ [r], r @ M @ s) = Some res"
  shows "match (receiver c @ Lit M # p) (r @ M @ s) (caps, mark) = Some res"
proof (rule match_receiver_exact[OF assms(1) _ assms(4)])
  fix a b assume ab: "tl r = a @ b" "b \<noteq> []"
  have "hd b \<in> set (tl r)" using ab by (cases b) auto
  then have "accepts c (hd b)" using assms(1) by (cases r) (auto simp: is_receiver_def list_all_iff)
  then have "hd M \<noteq> hd b" using assms(3) by auto
  then show "strip_prefix M (b @ M @ s) = None"
    using ab(2) assms(2) by (cases b) (auto simp: strip_prefix_hd_neq)
qed

subsection \<open>Evaluating a substitution on a concrete buffer\<close>

lemma re_sub_code [code]:
  "re_sub p t s =
     (if list_ex (\<lambda>a. case a of Lit l \<Rightarrow> \<not> contains l s | _ \<Rightarrow> False) p then s
      else (case match p s ([], s) of
        Some (caps, rest) \<Rightarrow>
          if length rest < length s then expand t caps @ re_sub p t rest
          else expand t caps @ (case s of [] \<Rightarrow> [] | x # xs \<Rightarrow> x # re_sub p t xs)
      | None \<Rightarrow> (case s of [] \<Rightarrow> [] | x # xs \<Rightarrow> x # re_sub p t xs)))"
proof (cases "list_ex (\<lambda>a. case a of Lit l \<Rightarrow> \<not> contains l s | _ \<Rightarrow> False) p")
  case True
  then obtain a where a: "a \<in> set p" and ca: "case a of Lit l \<Rightarrow> \<not> contains l s | _ \<Rightarrow> False"
    unfolding list_ex_iff by blast
  from ca obtain l where "a = Lit l" "\<not> contains l s" by (cases a) auto
  then have "re_sub p t s = s" using a re_sub_noop by blast
  then show ?thesis using True by simp
next
  case False
  then show ?thesis by (subst re_sub.simps) simp
qed

subsection \<open>Buffers without the marker substrings\<close>


lemma str_replace_noop: "\<not> contains old s \<Longrightarrow> str_replace old new s = s"
  by (induction s) (auto split: option.splits)

lemma fix_line_noop:
  assumes "\<not> contains [dq, dq] l" "\<not> contains temp_escaped l"
  shows "fix_line l = l"
proof -
  have "contains [dq, dq] [bslash, dq, dq]" by (simp add: dq_def bslash_def)
  then have "\<not> contains [bslash, dq, dq] l" using assms(1) contains_trans by blast
  then show ?thesis using assms by (simp add: fix_line_def str_replace_noop)
qed

lemma split_lines_nonempty [simp]: "split_lines s \<noteq> []"
  by (induction s) (auto split: list.splits)

lemma join_split_lines: "join_lines (split_lines s) = s"
proof (induction s)
  case Nil
  then show ?case by simp
next
  case (Cons x xs)
  obtain l ls where sp: "split_lines xs = l # ls" by (cases "split_lines xs") auto
  show ?case
  proof (cases "x = newline")
    case True
    then show ?thesis using Cons sp by simp
  next
    case False
    then show ?thesis using Cons sp by (cases ls) auto
  qed
qed

lemma split_lines_hd: "split_lines s = l # ls \<Longrightarrow> \<exists>b. s = l @ b"
proof (induction s arbitrary: l ls)
  case Nil
  then show ?case by simp
next
  case (Cons x xs)
  obtain l' ls' where sp: "split_lines xs = l' # ls'" by (cases "split_lines xs") auto
  then obtain b where "xs = l' @ b" using Cons.IH by blast
  then show ?case using Cons.prems sp by (auto split: if_splits)
qed

lemma split_lines_part: "l \<in> set (split_lines s) \<Longrightarrow> \<exists>a b. s = a @ l @ b"
proof (induction s arbitrary: l)
  case Nil
  then show ?case by simp
next
  case (Cons x xs)
  obtain l' ls' where sp: "split_lines xs = l' # ls'" by (cases "split_lines xs") auto
  have rest: "\<exists>a b. x # xs = a @ l @ b" if h: "l \<in> set (split_lines xs)"
  proof -
    obtain a b where "xs = a @ l @ b" using Cons.IH[OF h] by blast
    then have "x # xs = (x # a) @ l @ b" by simp
    then show ?thesis by blast
  qed
  show ?case
  proof (cases "x = newline")
    case True
    then have "l = [] \<or> l \<in> set (split_lines xs)" using Cons.prems by simp
    then show ?thesis using rest by (metis append_Nil)
  next
    case False
    then have "l = x # l' \<or> l \<in> set ls'" using Cons.prems sp by simp
    then show ?thesis
    proof
      assume l: "l = x # l'"
      obtain b where "xs = l' @ b" using split_lines_hd[OF sp] by blast
      then have "x # xs = [] @ l @ b" using l by simp
      then show ?thesis by blast
    next
      assume "l \<in> set ls'"
      then show ?thesis using rest sp by simp
    qed
  qed
qed

lemma comprehensive_noop:
  assumes "\<not> contains [dq, dq] s" "\<not> contains temp_escaped s"
  shows "replace_double_quotes_comprehensive s = s"
proof -
  have "fix_line l = l" if h: "l \<in> set (split_lines s)" for l
  proof -
    obtain a b where "s = a @ l @ b" using split_lines_part[OF h] by blast
    then have "contains l s" unfolding contains_iff by blast
    then have "\<not> contains [dq, dq] l" "\<not> contains temp_escaped l"
      using assms contains_trans by blast+
    then show ?thesis by (rule fix_line_noop)
  qed
  then have "map fix_line (split_lines s) = split_lines s" by (simp add: map_idI)
  then show ?thesis by (simp add: replace_double_quotes_comprehensive_def join_split_lines)
qed

text \<open>
  C2, as stated, fails: the text \<open>"k": "v"\<close> holds no doubled double quote, yet the simple
  quote normalizer changes it. For that script the pre-check decides the result.
\<close>

theorem precheck_quotes_counterexample:
  "\<not> contains [dq, dq] ([dq] @ ''k'' @ [dq] @ '': '' @ [dq] @ ''v'' @ [dq])
   \<and> replace_double_quotes_in_json ([dq] @ ''k'' @ [dq] @ '': '' @ [dq] @ ''v'' @ [dq])
       = [sq] @ ''k'' @ [sq] @ '': '' @ [sq] @ ''v'' @ [sq]
   \<and> [sq] @ ''k'' @ [sq] @ '': '' @ [sq] @ ''v'' @ [sq] \<noteq> [dq] @ ''k'' @ [dq] @ '': '' @ [dq] @ ''v'' @ [dq]"
  by code_simp

text \<open>
  C2, amended: for the three fluent-assertion scripts a buffer without the marker
  substrings of the pre-check is returned unchanged, so there the pre-check is a pure
  short-circuit; the comprehensive quote normalizer returns a buffer unchanged when it
  holds neither a doubled double quote nor the sentinel text.
\<close>

theorem precheck_is_shortcut:
  "(\<not> contains ''.Should()'' s \<and> \<not> contains ''.Assert.'' s \<longrightarrow> fix_all_should_patterns s = s)
   \<and> (\<not> contains ''.Should()'' s \<longrightarrow> fix_complex_should_patterns s = s)
   \<and> (\<not> contains ''.Should()'' s \<longrightarrow> fix_final_should_patterns s = s)
   \<and> (\<not> contains [dq, dq] s \<and> \<not> contains temp_escaped s \<longrightarrow> replace_double_quotes_comprehensive s = s)"
proof (intro conjI impI)
  assume "\<not> contains ''.Should()'' s \<and> \<not> contains ''.Assert.'' s"
  then show "fix_all_should_patterns s = s"
    unfolding fix_all_should_patterns_def by (intro apply_rules_noop[OF all_need_rules_all]) simp
next
  assume "\<not> contains ''.Should()'' s"
  then show "fix_complex_should_patterns s = s"
    unfolding fix_complex_should_patterns_def by (intro apply_rules_noop[OF all_need_rules_complex]) simp
next
  assume "\<not> contains ''.Should()'' s"
  then show "fix_final_should_patterns s = s"
    unfolding fix_final_should_patterns_def by (intro apply_rules_noop[OF all_need_rules_final]) simp
next
  assume "\<not> contains [dq, dq] s \<and> \<not> contains temp_escaped s"
  then show "replace_double_quotes_comprehensive s = s" by (simp add: comprehensive_noop)
qed

theorem precheck_is_shortcut_witness:
  "\<not> contains ''.Should()'' ''Assert.True(x);'' \<and> \<not> contains ''.Assert.'' ''Assert.True(x);''
   \<and> fix_all_should_patterns ''Assert.True(x);'' = ''Assert.True(x);''
   \<and> fix_complex_should_patterns ''Assert.True(x);'' = ''Assert.True(x);''
   \<and> fix_final_should_patterns ''Assert.True(x);'' = ''Assert.True(x);''
   \<and> \<not> contains [dq, dq] ''Assert.True(x);'' \<and> \<not> contains temp_escaped ''Assert.True(x);''
   \<and> replace_double_quotes_comprehensive ''Assert.True(x);'' = ''Assert.True(x);''"
  using precheck_is_shortcut[of "''Assert.True(x);''"] by (simp add: dq_def temp_escaped_def)







subsection \<open>The escape sentinel of replace_all_quotes.py\<close>

text \<open>
  C3: the line \<open>say \""hi\""\<close> is eligible (it holds a doubled quote) and holds only
  escaped-quote sequences; the script marks \<open>\""\<close> with the sentinel and restores the
  sentinel as \<open>\"\<close>, so the line comes back as \<open>say \"hi\"\<close>, one quote shorter per escape.
\<close>

theorem escaped_quote_not_restored:
  "replace_double_quotes_comprehensive (''say '' @ [bslash, dq, dq] @ ''hi'' @ [bslash, dq, dq])
     = ''say '' @ [bslash, dq] @ ''hi'' @ [bslash, dq]"
  by code_simp

subsection \<open>Writing back\<close>






subsection \<open>A rule applied to a single call\<close>

lemma apply_rules_split:
  "apply_rules (pre @ (p, t) # post) s = apply_rules post (re_sub p t (apply_rules pre s))"
  by (simp add: apply_rules_def)

lemma contains_straddle_Should:
  assumes "\<not> contains ''.Should()'' r" "tx \<noteq> []" "hd tx = CHR ''.''" "strip_prefix ''.Should()'' M \<noteq> None"
  shows "contains M (r @ tx) = contains M tx"
  by (rule contains_straddle[OF assms(1) _ _ assms(2) _ assms(4)]) (use assms(3) in auto)

lemma contains_before_sep_False:
  assumes "c \<notin> set i" "c \<in> set M" "strip_prefix (tl (dropWhile (\<lambda>y. y \<noteq> c) M)) tx' = None"
    and "\<not> contains M (c # tx')"
  shows "contains M (i @ c # tx') = False"
  using contains_before_sep[OF assms(1,2)] assms(3,4) by blast

lemma accepts_not_rparen [simp]: "accepts not_rparen c = (c \<noteq> CHR '')'')"
  by (simp add: not_rparen_def)

lemma match_arg_close:
  assumes "v \<noteq> []" "CHR '')'' \<notin> set v"
  shows "match (arg @ [Lit '')'']) (v @ '')'') (caps, mark) = Some (caps @ [v], [])"
  unfolding arg_def by (rule match_capture_plus) (use assms in auto)

lemma match_fluent_arg:
  assumes "is_receiver c r" "\<not> contains ''.Should()'' r" "strip_prefix ''.Should()'' M \<noteq> None"
    and "v \<noteq> []" "CHR '')'' \<notin> set v"
  shows "match (receiver c @ [Lit M] @ arg @ [Lit '')'']) (r @ M @ v @ '')'') ([], mark) = Some ([r, v], [])"
proof -
  have "match (receiver c @ Lit M # arg @ [Lit '')'']) (r @ M @ v @ '')'') ([], mark) = Some ([r, v], [])"
    by (rule match_receiver_marker[OF assms(1,2) _ _ assms(3)])
       (use match_arg_close[OF assms(4,5)] in auto)
  then show ?thesis by simp
qed

lemma re_sub_fluent_arg:
  assumes "is_receiver c r" "\<not> contains ''.Should()'' r" "strip_prefix ''.Should()'' M \<noteq> None"
    and "v \<noteq> []" "CHR '')'' \<notin> set v"
  shows "re_sub (receiver c @ [Lit M] @ arg @ [Lit '')'']) t (r @ M @ v @ '')'') = expand t [r, v]"
proof (rule re_sub_whole[where c = "CHR '')''" and l = "[]"])
  show "match (receiver c @ [Lit M] @ arg @ [Lit '')'']) (r @ M @ v @ '')'') ([], r @ M @ v @ '')'')
      = Some ([r, v], [])"
    by (rule match_fluent_arg[OF assms])
qed simp_all

lemma match_fluent_optarg:
  assumes "is_receiver c r" "\<not> contains ''.Should()'' r" "strip_prefix ''.Should()'' M \<noteq> None"
    and "CHR '')'' \<notin> set a"
  shows "match (receiver c @ [Lit M, Star not_rparen, Lit '')'']) (r @ M @ a @ '')'') ([], mark) = Some ([r], [])"
proof -
  have "match [Star not_rparen, Lit '')''] (a @ '')'') ([r], m) = Some ([r], [])" for m
    by (rule match_Star_exact) (use assms(4) in auto)
  then have "match (receiver c @ Lit M # [Star not_rparen, Lit '')'']) (r @ M @ a @ '')'') ([], mark) = Some ([r], [])"
    by (intro match_receiver_marker[OF assms(1,2) _ _ assms(3)]) auto
  then show ?thesis by simp
qed

lemma re_sub_fluent_optarg:
  assumes "is_receiver c r" "\<not> contains ''.Should()'' r" "strip_prefix ''.Should()'' M \<noteq> None"
    and "CHR '')'' \<notin> set a"
  shows "re_sub (receiver c @ [Lit M, Star not_rparen, Lit '')'']) t (r @ M @ a @ '')'') = expand t [r]"
proof (rule re_sub_whole[where c = "CHR '')''" and l = "[]"])
  show "match (receiver c @ [Lit M, Star not_rparen, Lit '')'']) (r @ M @ a @ '')'') ([], r @ M @ a @ '')'')
      = Some ([r], [])"
    by (rule match_fluent_optarg[OF assms])
  show "r @ M @ a @ '')'' \<noteq> []" by simp
qed simp

lemma is_receiver_nonempty: "is_receiver c r \<Longrightarrow> r \<noteq> []"
  by (auto simp: is_receiver_def)

subsection \<open>fix_final_should.py on a \<open>BeTrue\<close> or \<open>BeFalse\<close> call with an argument\<close>

lemma final_split_true:
  "rules_final = take 9 rules_final
     @ (receiver recv_bang @ [Lit ''.Should().BeTrue('', Star not_rparen, Lit '')''],
        [T ''Assert.True('', G 1, T '')'']) # drop 10 rules_final"
  by code_simp

lemma final_split_false:
  "rules_final = take 10 rules_final
     @ (receiver recv_bang @ [Lit ''.Should().BeFalse('', Star not_rparen, Lit '')''],
        [T ''Assert.False('', G 1, T '')'']) # drop 11 rules_final"
  by code_simp

lemma final_before_true:
  "all_need [''.Should().NotBeNull()'', ''.Should().BeNull()'', ''.Should().Be('', ''.Should().NotBe('',
     ''.Should().Contain('', ''.Should().BeGreaterThan('', ''.Should().BeGreaterThanOrEqualTo('',
     ''.Should().BeLessThan('', ''.Should().BeLessThanOrEqualTo(''] (take 9 rules_final)"
  by code_simp

lemma final_before_false:
  "all_need [''.Should().NotBeNull()'', ''.Should().BeNull()'', ''.Should().Be('', ''.Should().NotBe('',
     ''.Should().Contain('', ''.Should().BeGreaterThan('', ''.Should().BeGreaterThanOrEqualTo('',
     ''.Should().BeLessThan('', ''.Should().BeLessThanOrEqualTo('', ''.Should().BeTrue(''] (take 10 rules_final)"
  by code_simp

lemma final_after: "all_need [''.Should().''] (drop 10 rules_final)" "all_need [''.Should().''] (drop 11 rules_final)"
  by code_simp+

lemma no_Should_dot_wrapped:
  assumes "\<not> contains ''.Should()'' r"
  shows "\<not> contains ''.Should().'' (r @ '')'')"
  using contains_snoc[of "''.''" "''.Should()''" r "CHR '')''"] assms by auto

lemma final_true:
  assumes "is_receiver recv_bang r" "\<not> contains ''.Should()'' r" "CHR '')'' \<notin> set a"
  shows "fix_final_should_patterns (r @ ''.Should().BeTrue('' @ a @ '')'') = ''Assert.True('' @ r @ '')''"
proof -
  let ?in = "r @ ''.Should().BeTrue('' @ a @ '')''"
  let ?out = "''Assert.True('' @ r @ '')''"
  have 1: "apply_rules (take 9 rules_final) ?in = ?in"
    by (rule apply_rules_noop[OF final_before_true])
       (simp add: contains_straddle_Should contains_before_sep_False assms)
  have 2: "re_sub (receiver recv_bang @ [Lit ''.Should().BeTrue('', Star not_rparen, Lit '')''])
      [T ''Assert.True('', G 1, T '')''] ?in = ?out"
    using re_sub_fluent_optarg[OF assms(1,2) _ assms(3), of "''.Should().BeTrue(''"] by simp
  have 3: "apply_rules (drop 10 rules_final) ?out = ?out"
    by (rule apply_rules_noop[OF final_after(1)]) (use no_Should_dot_wrapped[OF assms(2)] in simp)
  show ?thesis
    unfolding fix_final_should_patterns_def
    by (subst final_split_true) (simp only: apply_rules_split 1 2 3)
qed

lemma final_false:
  assumes "is_receiver recv_bang r" "\<not> contains ''.Should()'' r" "CHR '')'' \<notin> set a"
  shows "fix_final_should_patterns (r @ ''.Should().BeFalse('' @ a @ '')'') = ''Assert.False('' @ r @ '')''"
proof -
  let ?in = "r @ ''.Should().BeFalse('' @ a @ '')''"
  let ?out = "''Assert.False('' @ r @ '')''"
  have 1: "apply_rules (take 10 rules_final) ?in = ?in"
    by (rule apply_rules_noop[OF final_before_false])
       (simp add: contains_straddle_Should contains_before_sep_False assms)
  have 2: "re_sub (receiver recv_bang @ [Lit ''.Should().BeFalse('', Star not_rparen, Lit '')''])
      [T ''Assert.False('', G 1, T '')''] ?in = ?out"
    using re_sub_fluent_optarg[OF assms(1,2) _ assms(3), of "''.Should().BeFalse(''"] by simp
  have 3: "apply_rules (drop 11 rules_final) ?out = ?out"
    by (rule apply_rules_noop[OF final_after(2)]) (use no_Should_dot_wrapped[OF assms(2)] in simp)
  show ?thesis
    unfolding fix_final_should_patterns_def
    by (subst final_split_false) (simp only: apply_rules_split 1 2 3)
qed

text \<open>
  C10, as stated, fails when the receiver itself holds a fluent call: \<open>y.Should().BeNull()\<close>
  is matched by the receiver grammar, but the \<open>BeNull\<close> rule rewrites it first.
\<close>

theorem final_receiver_counterexample:
  "is_receiver recv_bang ''y.Should().BeNull()'' \<and> CHR '')'' \<notin> set ''a''
   \<and> fix_final_should_patterns (''y.Should().BeNull()'' @ ''.Should().BeTrue('' @ ''a'' @ '')'')
       = ''Assert.True(Assert.Null(y))''
   \<and> ''Assert.True(Assert.Null(y))'' \<noteq> ''Assert.True('' @ ''y.Should().BeNull()'' @ '')''"
  by code_simp

text \<open>
  C10, amended: for every receiver \<open>r\<close> of the receiver grammar that holds no \<open>.Should()\<close>
  and every argument text \<open>a\<close> without a closing parenthesis, fix_final_should.py rewrites
  \<open>r.Should().BeTrue(a)\<close> to \<open>Assert.True(r)\<close> and \<open>r.Should().BeFalse(a)\<close> to
  \<open>Assert.False(r)\<close>; the argument is dropped.
\<close>

theorem final_drops_argument:
  assumes "is_receiver recv_bang r" "\<not> contains ''.Should()'' r" "CHR '')'' \<notin> set a"
  shows "fix_final_should_patterns (r @ ''.Should().BeTrue('' @ a @ '')'') = ''Assert.True('' @ r @ '')''
    \<and> fix_final_should_patterns (r @ ''.Should().BeFalse('' @ a @ '')'') = ''Assert.False('' @ r @ '')''"
  using final_true[OF assms] final_false[OF assms] by simp

theorem final_drops_argument_witness:
  "is_receiver recv_bang ''x.Ok'' \<and> \<not> contains ''.Should()'' ''x.Ok'' \<and> CHR '')'' \<notin> set ''because''
   \<and> fix_final_should_patterns (''x.Ok'' @ ''.Should().BeTrue('' @ ''because'' @ '')'') = ''Assert.True(x.Ok)''
   \<and> fix_final_should_patterns (''x.Ok'' @ ''.Should().BeFalse('' @ ''because'' @ '')'') = ''Assert.False(x.Ok)''"
proof -
  have h: "is_receiver recv_bang ''x.Ok''" "\<not> contains ''.Should()'' ''x.Ok''" "CHR '')'' \<notin> set ''because''"
    by code_simp+
  show ?thesis using final_drops_argument[OF h] h by simp
qed

subsection \<open>The \<open>Be\<close> rule of fix_all_should.py and fix_complex_should.py\<close>

lemma contains_absent: "c \<in> set l \<Longrightarrow> c \<notin> set s \<Longrightarrow> contains l s = False"
  using contains_set by blast

lemma all_split_be:
  "rules_all = take 2 rules_all
     @ (receiver recv_plain @ [Lit ''.Should().Be(''] @ arg @ [Lit '')''],
        [T ''Assert.Equal('', G 2, T '', '', G 1, T '')'']) # drop 3 rules_all"
  by code_simp

lemma all_before_be: "all_need [''.Should().NotBeNull()'', ''.Should().BeNull()''] (take 2 rules_all)"
  by code_simp

lemma all_after_be: "all_need [''.Should().'', ''.Assert.''] (drop 3 rules_all)"
  by code_simp

lemma complex_split_be:
  "rules_complex = take 6 rules_complex
     @ (receiver recv_bang @ [Lit ''.Should().Be(''] @ arg @ [Lit '')''],
        [T ''Assert.Equal('', G 2, T '', '', G 1, T '')'']) # drop 7 rules_complex"
  by code_simp

lemma complex_before_be:
  "all_need [''.Should().BeTrue()'', ''.Should().BeFalse()'', ''.Should().NotBeNull()'', ''.Should().BeNull()'']
     (take 6 rules_complex)"
  by code_simp

lemma complex_after_be: "all_need [''.Should().''] (drop 7 rules_complex)"
  by code_simp

text \<open>The rewritten call \<open>Assert.M(v, r)\<close> holds no \<open>.Should().\<close>, and no \<open>.Assert.\<close> if its parts hold none.\<close>

lemma no_Should_in_call:
  assumes "\<not> contains ''.Should()'' r" "CHR '')'' \<notin> set v"
  shows "\<not> contains ''.Should().'' (v @ '', '' @ r @ '')'')"
  using no_Should_dot_wrapped[OF assms(1)] assms(2)
  by (simp add: contains_sep contains_absent[where c = "CHR '')''"])

lemma no_Assert_in_call:
  assumes "\<not> contains ''.Assert.'' r" "\<not> contains ''.Assert.'' v"
  shows "\<not> contains ''.Assert.'' (v @ '', '' @ r @ '')'')"
  using assms by (simp add: contains_sep)

lemma all_be:
  assumes "is_receiver recv_plain r" "\<not> contains ''.Should()'' r" "\<not> contains ''.Assert.'' r"
    and "v \<noteq> []" "CHR '')'' \<notin> set v" "\<not> contains ''.Assert.'' v"
  shows "fix_all_should_patterns (r @ ''.Should().Be('' @ v @ '')'') = ''Assert.Equal('' @ v @ '', '' @ r @ '')''"
proof -
  let ?in = "r @ ''.Should().Be('' @ v @ '')''"
  let ?out = "''Assert.Equal('' @ v @ '', '' @ r @ '')''"
  have 1: "apply_rules (take 2 rules_all) ?in = ?in"
    by (rule apply_rules_noop[OF all_before_be])
       (simp add: contains_straddle_Should contains_before_sep_False assms)
  have 2: "re_sub (receiver recv_plain @ [Lit ''.Should().Be(''] @ arg @ [Lit '')''])
      [T ''Assert.Equal('', G 2, T '', '', G 1, T '')''] ?in = ?out"
    using re_sub_fluent_arg[OF assms(1,2) _ assms(4,5), of "''.Should().Be(''"] by simp
  have 3: "apply_rules (drop 3 rules_all) ?out = ?out"
    by (rule apply_rules_noop[OF all_after_be])
       (use no_Should_in_call[OF assms(2,5)] no_Assert_in_call[OF assms(3,6)] in simp)
  show ?thesis
    unfolding fix_all_should_patterns_def
    by (subst all_split_be) (simp only: apply_rules_split 1 2 3)
qed

lemma complex_be:
  assumes "is_receiver recv_bang r" "\<not> contains ''.Should()'' r" "v \<noteq> []" "CHR '')'' \<notin> set v"
  shows "fix_complex_should_patterns (r @ ''.Should().Be('' @ v @ '')'') = ''Assert.Equal('' @ v @ '', '' @ r @ '')''"
proof -
  let ?in = "r @ ''.Should().Be('' @ v @ '')''"
  let ?out = "''Assert.Equal('' @ v @ '', '' @ r @ '')''"
  have 1: "apply_rules (take 6 rules_complex) ?in = ?in"
    by (rule apply_rules_noop[OF complex_before_be])
       (simp add: contains_straddle_Should contains_before_sep_False assms)
  have 2: "re_sub (receiver recv_bang @ [Lit ''.Should().Be(''] @ arg @ [Lit '')''])
      [T ''Assert.Equal('', G 2, T '', '', G 1, T '')''] ?in = ?out"
    using re_sub_fluent_arg[OF assms(1,2) _ assms(3,4), of "''.Should().Be(''"] by simp
  have 3: "apply_rules (drop 7 rules_complex) ?out = ?out"
    by (rule apply_rules_noop[OF complex_after_be])
       (use no_Should_in_call[OF assms(2,4)] in simp)
  show ?thesis
    unfolding fix_complex_should_patterns_def
    by (subst complex_split_be) (simp only: apply_rules_split 1 2 3)
qed

text \<open>
  C6, as stated, fails: the argument capture is \<open>[^)]+\<close>, which ends at the first closing
  parenthesis, so for the balanced argument \<open>Foo(1)\<close> both scripts capture \<open>Foo(1\<close> and
  leave the second parenthesis behind the rewritten call.
\<close>

theorem nested_argument_counterexample:
  "fix_all_should_patterns (''x'' @ ''.Should().Be('' @ ''Foo(1)'' @ '')'') = ''Assert.Equal(Foo(1, x))''
   \<and> fix_complex_should_patterns (''x'' @ ''.Should().Be('' @ ''Foo(1)'' @ '')'') = ''Assert.Equal(Foo(1, x))''
   \<and> ''Assert.Equal(Foo(1, x))'' \<noteq> ''Assert.Equal('' @ ''Foo(1)'' @ '', '' @ ''x'' @ '')''"
  by code_simp

text \<open>
  C6, amended: for every receiver \<open>r\<close> of the receiver grammar and every non-empty argument
  \<open>v\<close> without a closing parenthesis, where \<open>r\<close> holds no \<open>.Should()\<close> (and, for
  fix_all_should.py, neither \<open>r\<close> nor \<open>v\<close> holds \<open>.Assert.\<close>), the \<open>Be\<close> rule rewrites
  \<open>r.Should().Be(v)\<close> to \<open>Assert.Equal(v, r)\<close>.
\<close>

theorem be_argument_to_first_paren:
  "(is_receiver recv_plain r \<and> \<not> contains ''.Should()'' r \<and> \<not> contains ''.Assert.'' r
      \<and> v \<noteq> [] \<and> CHR '')'' \<notin> set v \<and> \<not> contains ''.Assert.'' v
    \<longrightarrow> fix_all_should_patterns (r @ ''.Should().Be('' @ v @ '')'') = ''Assert.Equal('' @ v @ '', '' @ r @ '')'')
   \<and> (is_receiver recv_bang r \<and> \<not> contains ''.Should()'' r \<and> v \<noteq> [] \<and> CHR '')'' \<notin> set v
    \<longrightarrow> fix_complex_should_patterns (r @ ''.Should().Be('' @ v @ '')'') = ''Assert.Equal('' @ v @ '', '' @ r @ '')'')"
  using all_be complex_be by blast

theorem be_argument_to_first_paren_witness:
  "is_receiver recv_plain ''a.b[0]'' \<and> is_receiver recv_bang ''a.b[0]''
   \<and> \<not> contains ''.Should()'' ''a.b[0]'' \<and> \<not> contains ''.Assert.'' ''a.b[0]''
   \<and> ''x + 1'' \<noteq> [] \<and> CHR '')'' \<notin> set ''x + 1'' \<and> \<not> contains ''.Assert.'' ''x + 1''
   \<and> fix_all_should_patterns (''a.b[0]'' @ ''.Should().Be('' @ ''x + 1'' @ '')'') = ''Assert.Equal(x + 1, a.b[0])''
   \<and> fix_complex_should_patterns (''a.b[0]'' @ ''.Should().Be('' @ ''x + 1'' @ '')'') = ''Assert.Equal(x + 1, a.b[0])''"
proof -
  have h: "is_receiver recv_plain ''a.b[0]''" "is_receiver recv_bang ''a.b[0]''"
    "\<not> contains ''.Should()'' ''a.b[0]''" "\<not> contains ''.Assert.'' ''a.b[0]''"
    "''x + 1'' \<noteq> []" "CHR '')'' \<notin> set ''x + 1''" "\<not> contains ''.Assert.'' ''x + 1''"
    by code_simp+
  show ?thesis using be_argument_to_first_paren[of "''a.b[0]''" "''x + 1''"] h by simp
qed

subsection \<open>The composed \<open>Contains\<close> rules of fix_complex_should.py\<close>

lemma strip_prefix_self [simp]: "strip_prefix l l = Some []"
  by (simp add: strip_prefix_Some_iff)

lemma match_contains_call:
  assumes "is_receiver recv_plain r" "\<not> contains ''.Contains('' r" "i \<noteq> []" "CHR '')'' \<notin> set i"
    and "L \<noteq> []" "hd L = CHR '')''"
  shows "match (receiver recv_plain @ [Lit ''.Contains(''] @ arg @ [Lit L]) (r @ ''.Contains('' @ i @ L) ([], mark)
    = Some ([r, i], [])"
proof -
  have a: "match (arg @ [Lit L]) (i @ L) ([r], m) = Some ([r, i], [])" for m
    unfolding arg_def by (rule match_capture_plus) (use assms in auto)
  have "match (receiver recv_plain @ Lit ''.Contains('' # arg @ [Lit L]) (r @ ''.Contains('' @ i @ L) ([], mark)
      = Some ([r, i], [])"
    by (rule match_receiver_marker[OF assms(1,2)]) (use a in auto)
  then show ?thesis by simp
qed

lemma re_sub_contains_call:
  assumes "is_receiver recv_plain r" "\<not> contains ''.Contains('' r" "i \<noteq> []" "CHR '')'' \<notin> set i"
    and "L \<noteq> []" "hd L = CHR '')''"
  shows "re_sub (receiver recv_plain @ [Lit ''.Contains(''] @ arg @ [Lit L]) t (r @ ''.Contains('' @ i @ L)
    = expand t [r, i]"
proof -
  let ?s = "r @ ''.Contains('' @ i @ L"
  have m: "match (receiver recv_plain @ [Lit ''.Contains(''] @ arg @ [Lit L]) ?s ([], ?s) = Some ([r, i], [])"
    by (rule match_contains_call[OF assms])
  show ?thesis
    by (rule re_sub_whole[OF m, where c = "CHR ''.''" and l = "''Contains(''"]) simp_all
qed

lemma complex_split_true:
  "rules_complex =
     (receiver recv_plain @ [Lit ''.Contains(''] @ arg @ [Lit '').Should().BeTrue()''],
      [T ''Assert.Contains('', G 2, T '', '', G 1, T '')'']) # drop 1 rules_complex"
  by code_simp

lemma complex_split_false:
  "rules_complex = take 1 rules_complex
     @ (receiver recv_plain @ [Lit ''.Contains(''] @ arg @ [Lit '').Should().BeFalse()''],
        [T ''Assert.DoesNotContain('', G 2, T '', '', G 1, T '')'']) # drop 2 rules_complex"
  by code_simp

lemma complex_before_false: "all_need [''.Should().BeTrue()''] (take 1 rules_complex)"
  by code_simp

lemma complex_after_contains:
  "all_need [''.Should().''] (drop 1 rules_complex)" "all_need [''.Should().''] (drop 2 rules_complex)"
  by code_simp+

lemma complex_contains_true:
  assumes "is_receiver recv_plain r" "\<not> contains ''.Should()'' r" "\<not> contains ''.Contains('' r"
    and "i \<noteq> []" "CHR '')'' \<notin> set i"
  shows "fix_complex_should_patterns (r @ ''.Contains('' @ i @ '').Should().BeTrue()'')
    = ''Assert.Contains('' @ i @ '', '' @ r @ '')''"
proof -
  let ?in = "r @ ''.Contains('' @ i @ '').Should().BeTrue()''"
  let ?out = "''Assert.Contains('' @ i @ '', '' @ r @ '')''"
  have 2: "re_sub (receiver recv_plain @ [Lit ''.Contains(''] @ arg @ [Lit '').Should().BeTrue()''])
      [T ''Assert.Contains('', G 2, T '', '', G 1, T '')''] ?in = ?out"
    using re_sub_contains_call[OF assms(1,3,4,5), of "'').Should().BeTrue()''"] by simp
  have 3: "apply_rules (drop 1 rules_complex) ?out = ?out"
    by (rule apply_rules_noop[OF complex_after_contains(1)])
       (use no_Should_in_call[OF assms(2,5)] in simp)
  show ?thesis
    unfolding fix_complex_should_patterns_def
    by (subst complex_split_true) (simp only: apply_rules_Cons 2 3)
qed

lemma complex_contains_false:
  assumes "is_receiver recv_plain r" "\<not> contains ''.Should()'' r" "\<not> contains ''.Contains('' r"
    and "i \<noteq> []" "CHR '')'' \<notin> set i"
  shows "fix_complex_should_patterns (r @ ''.Contains('' @ i @ '').Should().BeFalse()'')
    = ''Assert.DoesNotContain('' @ i @ '', '' @ r @ '')''"
proof -
  let ?in = "r @ ''.Contains('' @ i @ '').Should().BeFalse()''"
  let ?out = "''Assert.DoesNotContain('' @ i @ '', '' @ r @ '')''"
  have 1: "apply_rules (take 1 rules_complex) ?in = ?in"
    by (rule apply_rules_noop[OF complex_before_false])
       (simp add: contains_straddle_Should contains_before_sep_False assms)
  have 2: "re_sub (receiver recv_plain @ [Lit ''.Contains(''] @ arg @ [Lit '').Should().BeFalse()''])
      [T ''Assert.DoesNotContain('', G 2, T '', '', G 1, T '')''] ?in = ?out"
    using re_sub_contains_call[OF assms(1,3,4,5), of "'').Should().BeFalse()''"] by simp
  have 3: "apply_rules (drop 2 rules_complex) ?out = ?out"
    by (rule apply_rules_noop[OF complex_after_contains(2)])
       (use no_Should_in_call[OF assms(2,5)] in simp)
  show ?thesis
    unfolding fix_complex_should_patterns_def
    by (subst complex_split_false) (simp only: apply_rules_split 1 2 3)
qed

lemma complex_contains_example:
  "fix_complex_should_patterns (''text.Contains('' @ [dq] @ ''ok'' @ [dq] @ '').Should().BeTrue();'')
     = ''Assert.Contains('' @ [dq] @ ''ok'' @ [dq] @ '', text);''"
  by code_simp

text \<open>
  C4, as stated, fails for receivers of the receiver grammar that themselves hold a fluent
  call or an open \<open>.Contains(\<close>: a later rule rewrites inside the receiver, or the lazy
  receiver capture stops at the first \<open>.Contains(\<close>.
\<close>

theorem composed_contains_counterexample:
  "is_receiver recv_plain ''a.Should().BeNull()'' \<and> CHR '')'' \<notin> set ''x''
   \<and> fix_complex_should_patterns (''a.Should().BeNull()'' @ ''.Contains('' @ ''x'' @ '').Should().BeTrue()'')
       = ''Assert.Contains(x, Assert.Null(a))''
   \<and> ''Assert.Contains(x, Assert.Null(a))'' \<noteq> ''Assert.Contains('' @ ''x'' @ '', '' @ ''a.Should().BeNull()'' @ '')''
   \<and> is_receiver recv_plain ''a.Contains(b'' \<and> CHR '')'' \<notin> set ''c''
   \<and> fix_complex_should_patterns (''a.Contains(b'' @ ''.Contains('' @ ''c'' @ '').Should().BeTrue()'')
       = ''Assert.Contains(b.Contains(c, a)''
   \<and> ''Assert.Contains(b.Contains(c, a)'' \<noteq> ''Assert.Contains('' @ ''c'' @ '', '' @ ''a.Contains(b'' @ '')''"
  by code_simp

text \<open>
  C4, amended: for every receiver \<open>r\<close> of the receiver grammar that holds neither \<open>.Should()\<close>
  nor \<open>.Contains(\<close>, and every non-empty item \<open>i\<close> without a closing parenthesis,
  fix_complex_should.py rewrites \<open>r.Contains(i).Should().BeTrue()\<close> to \<open>Assert.Contains(i, r)\<close>
  and \<open>r.Contains(i).Should().BeFalse()\<close> to \<open>Assert.DoesNotContain(i, r)\<close>, the composed
  rules running before the generic ones; and \<open>text.Contains("ok").Should().BeTrue();\<close>
  yields \<open>Assert.Contains("ok", text);\<close>.
\<close>

theorem composed_contains_first:
  "(is_receiver recv_plain r \<and> \<not> contains ''.Should()'' r \<and> \<not> contains ''.Contains('' r
      \<and> i \<noteq> [] \<and> CHR '')'' \<notin> set i
    \<longrightarrow> fix_complex_should_patterns (r @ ''.Contains('' @ i @ '').Should().BeTrue()'')
          = ''Assert.Contains('' @ i @ '', '' @ r @ '')''
      \<and> fix_complex_should_patterns (r @ ''.Contains('' @ i @ '').Should().BeFalse()'')
          = ''Assert.DoesNotContain('' @ i @ '', '' @ r @ '')'')
   \<and> fix_complex_should_patterns (''text.Contains('' @ [dq] @ ''ok'' @ [dq] @ '').Should().BeTrue();'')
       = ''Assert.Contains('' @ [dq] @ ''ok'' @ [dq] @ '', text);''"
  using complex_contains_true complex_contains_false complex_contains_example by blast

theorem composed_contains_first_witness:
  "is_receiver recv_plain ''items.Names'' \<and> \<not> contains ''.Should()'' ''items.Names''
   \<and> \<not> contains ''.Contains('' ''items.Names'' \<and> ''key'' \<noteq> [] \<and> CHR '')'' \<notin> set ''key''
   \<and> fix_complex_should_patterns (''items.Names'' @ ''.Contains('' @ ''key'' @ '').Should().BeTrue()'')
       = ''Assert.Contains(key, items.Names)''
   \<and> fix_complex_should_patterns (''items.Names'' @ ''.Contains('' @ ''key'' @ '').Should().BeFalse()'')
       = ''Assert.DoesNotContain(key, items.Names)''"
proof -
  have h: "is_receiver recv_plain ''items.Names''" "\<not> contains ''.Should()'' ''items.Names''"
    "\<not> contains ''.Contains('' ''items.Names''" "''key'' \<noteq> []" "CHR '')'' \<notin> set ''key''"
    by code_simp+
  show ?thesis using composed_contains_first[of "''items.Names''" "''key''"] h by simp
qed

subsection \<open>The correction rules of fix_all_should.py\<close>

lemma ident_receiver: "ident = receiver ident_char"
  by (simp add: ident_def receiver_def)

lemma ident_chars:
  assumes "is_receiver ident_char X" "c \<in> set X"
  shows "accepts ident_char c"
proof -
  obtain x xs where X: "X = x # xs" using assms(1) by (cases X) (auto simp: is_receiver_def)
  have "accepts ident_start x \<Longrightarrow> accepts ident_char x"
    by (auto simp: ident_start_def ident_char_def)
  then show ?thesis using assms X by (auto simp: is_receiver_def list_all_iff)
qed

lemma ident_no_punct:
  assumes "is_receiver ident_char X"
  shows "CHR ''.'' \<notin> set X" "CHR '')'' \<notin> set X"
proof -
  have "\<not> accepts ident_char CHR ''.''" "\<not> accepts ident_char CHR '')''"
    by (simp_all add: ident_char_def)
  then show "CHR ''.'' \<notin> set X" "CHR '')'' \<notin> set X"
    using ident_chars[OF assms] by blast+
qed

lemma strip_prefix_absent: "c \<in> set l \<Longrightarrow> c \<notin> set s \<Longrightarrow> strip_prefix l s = None"
  by (cases "strip_prefix l s") (auto simp: strip_prefix_Some_iff)

lemma accepts_not_comma [simp]: "accepts not_comma c = (c \<noteq> CHR '','')"
  by (simp add: not_comma_def)

lemma match_correction:
  assumes "is_receiver ident_char X" "is_receiver ident_char Y" "a \<noteq> []" "CHR '','' \<notin> set a"
    and "M \<noteq> []" "hd M = CHR ''.''"
  shows "match (ident @ [Lit M] @ capture (one_or_more not_comma) @ [Lit '', ''] @ ident @ [Lit '')''])
      (X @ M @ a @ '', '' @ Y @ '')'') ([], mark) = Some ([X, a, Y], [])"
proof -
  have nd: "\<not> accepts ident_char CHR ''.''" "\<not> accepts ident_char CHR '')''"
    by (simp_all add: ident_char_def)
  have "match (receiver ident_char @ Lit '')'' # []) (Y @ '')'' @ []) ([X, a], m) = Some ([X, a, Y], [])" for m
    by (rule match_receiver_class[OF assms(2)]) (use nd in auto)
  then have y: "match (ident @ [Lit '')'']) (Y @ '')'') ([X, a], m) = Some ([X, a, Y], [])" for m
    by (simp add: ident_receiver)
  have a: "match (capture (one_or_more not_comma) @ Lit '', '' # ident @ [Lit '')''])
      (a @ '', '' @ Y @ '')'') ([X], m) = Some ([X, a, Y], [])" for m
    by (rule match_capture_plus) (use assms(3,4) y in auto)
  have "match (receiver ident_char @ Lit M # capture (one_or_more not_comma) @ Lit '', '' # ident @ [Lit '')''])
      (X @ M @ a @ '', '' @ Y @ '')'') ([], mark) = Some ([X, a, Y], [])"
    by (rule match_receiver_class[OF assms(1,5)]) (use nd assms(6) a in auto)
  then show ?thesis by (simp add: ident_receiver)
qed

lemma re_sub_correction:
  assumes "is_receiver ident_char X" "is_receiver ident_char Y" "a \<noteq> []" "CHR '','' \<notin> set a"
    and "M \<noteq> []" "hd M = CHR ''.''"
  shows "re_sub (ident @ [Lit M] @ capture (one_or_more not_comma) @ [Lit '', ''] @ ident @ [Lit '')'']) t
      (X @ M @ a @ '', '' @ Y @ '')'') = expand t [X, a, Y]"
proof -
  let ?s = "X @ M @ a @ '', '' @ Y @ '')''"
  have m: "match (ident @ [Lit M] @ capture (one_or_more not_comma) @ [Lit '', ''] @ ident @ [Lit '')''])
      ?s ([], ?s) = Some ([X, a, Y], [])"
    by (rule match_correction[OF assms])
  show ?thesis
    by (rule re_sub_whole[OF m, where c = "CHR '')''" and l = "[]"]) simp_all
qed

lemma all_split_corr_contains:
  "rules_all = take 17 rules_all
     @ (ident @ [Lit ''.Assert.Contains(''] @ capture (one_or_more not_comma) @ [Lit '', ''] @ ident @ [Lit '')''],
        [T ''Assert.Contains('', G 2, T '', '', G 1, T ''.'', G 3, T '')'']) # drop 18 rules_all"
  by code_simp

lemma all_split_corr_equal:
  "rules_all = take 18 rules_all
     @ (ident @ [Lit ''.Assert.Equal(''] @ capture (one_or_more not_comma) @ [Lit '', ''] @ ident @ [Lit '')''],
        [T ''Assert.Equal('', G 2, T '', '', G 1, T ''.'', G 3, T '')'']) # drop 19 rules_all"
  by code_simp

lemma all_before_corr:
  "all_need [''.Should()''] (take 17 rules_all)"
  "all_need [''.Should()'', ''.Assert.Contains(''] (take 18 rules_all)"
  by code_simp+

lemma all_after_corr:
  "all_need [''.Assert.''] (drop 18 rules_all)" "all_need [''.Assert.''] (drop 19 rules_all)"
  by code_simp+

lemma no_Assert_in_repaired:
  assumes "is_receiver ident_char X" "is_receiver ident_char Y" "\<not> contains ''.Assert.'' a"
  shows "\<not> contains ''.Assert.'' (a @ '', '' @ X @ ''.'' @ Y @ '')'')"
  using assms(3) ident_no_punct[OF assms(1)] ident_no_punct[OF assms(2)]
  by (simp add: contains_sep contains_skip strip_prefix_absent[where c = "CHR ''.''"])

lemma no_Should_in_malformed:
  assumes "is_receiver ident_char X" "is_receiver ident_char Y" "\<not> contains ''.Should()'' a"
  shows "\<not> contains ''.Should()'' (X @ ''.Assert.Contains('' @ a @ '', '' @ Y @ '')'')"
    "\<not> contains ''.Should()'' (X @ ''.Assert.Equal('' @ a @ '', '' @ Y @ '')'')"
  using assms(3) ident_no_punct[OF assms(1)] ident_no_punct[OF assms(2)]
  by (simp_all add: contains_sep contains_skip)

lemma no_Contains_in_malformed_equal:
  assumes "is_receiver ident_char X" "is_receiver ident_char Y" "\<not> contains ''.Assert.'' a"
  shows "\<not> contains ''.Assert.Contains('' (X @ ''.Assert.Equal('' @ a @ '', '' @ Y @ '')'')"
proof -
  have "contains ''.Assert.'' ''.Assert.Contains(''" by simp
  then have "\<not> contains ''.Assert.Contains('' a" using assms(3) contains_trans by blast
  then show ?thesis
    using ident_no_punct[OF assms(1)] ident_no_punct[OF assms(2)]
    by (simp add: contains_sep contains_skip)
qed

lemma all_corr_contains:
  assumes "is_receiver ident_char X" "is_receiver ident_char Y" "a \<noteq> []" "CHR '','' \<notin> set a"
    and "\<not> contains ''.Should()'' a" "\<not> contains ''.Assert.'' a"
  shows "fix_all_should_patterns (X @ ''.Assert.Contains('' @ a @ '', '' @ Y @ '')'')
    = ''Assert.Contains('' @ a @ '', '' @ X @ ''.'' @ Y @ '')''"
proof -
  let ?in = "X @ ''.Assert.Contains('' @ a @ '', '' @ Y @ '')''"
  let ?out = "''Assert.Contains('' @ a @ '', '' @ X @ ''.'' @ Y @ '')''"
  have 1: "apply_rules (take 17 rules_all) ?in = ?in"
    by (rule apply_rules_noop[OF all_before_corr(1)])
       (use no_Should_in_malformed(1)[OF assms(1,2,5)] in simp)
  have 2: "re_sub (ident @ [Lit ''.Assert.Contains(''] @ capture (one_or_more not_comma) @ [Lit '', ''] @ ident @ [Lit '')''])
      [T ''Assert.Contains('', G 2, T '', '', G 1, T ''.'', G 3, T '')''] ?in = ?out"
    using re_sub_correction[OF assms(1-4), of "''.Assert.Contains(''"] by simp
  have 3: "apply_rules (drop 18 rules_all) ?out = ?out"
    by (rule apply_rules_noop[OF all_after_corr(1)])
       (use no_Assert_in_repaired[OF assms(1,2,6)] in simp)
  show ?thesis
    unfolding fix_all_should_patterns_def
    by (subst all_split_corr_contains) (simp only: apply_rules_split 1 2 3)
qed

lemma all_corr_equal:
  assumes "is_receiver ident_char X" "is_receiver ident_char Y" "a \<noteq> []" "CHR '','' \<notin> set a"
    and "\<not> contains ''.Should()'' a" "\<not> contains ''.Assert.'' a"
  shows "fix_all_should_patterns (X @ ''.Assert.Equal('' @ a @ '', '' @ Y @ '')'')
    = ''Assert.Equal('' @ a @ '', '' @ X @ ''.'' @ Y @ '')''"
proof -
  let ?in = "X @ ''.Assert.Equal('' @ a @ '', '' @ Y @ '')''"
  let ?out = "''Assert.Equal('' @ a @ '', '' @ X @ ''.'' @ Y @ '')''"
  have 1: "apply_rules (take 18 rules_all) ?in = ?in"
    by (rule apply_rules_noop[OF all_before_corr(2)])
       (use no_Should_in_malformed(2)[OF assms(1,2,5)] no_Contains_in_malformed_equal[OF assms(1,2,6)] in simp)
  have 2: "re_sub (ident @ [Lit ''.Assert.Equal(''] @ capture (one_or_more not_comma) @ [Lit '', ''] @ ident @ [Lit '')''])
      [T ''Assert.Equal('', G 2, T '', '', G 1, T ''.'', G 3, T '')''] ?in = ?out"
    using re_sub_correction[OF assms(1-4), of "''.Assert.Equal(''"] by simp
  have 3: "apply_rules (drop 19 rules_all) ?out = ?out"
    by (rule apply_rules_noop[OF all_after_corr(2)])
       (use no_Assert_in_repaired[OF assms(1,2,6)] in simp)
  show ?thesis
    unfolding fix_all_should_patterns_def
    by (subst all_split_corr_equal) (simp only: apply_rules_split 1 2 3)
qed

text \<open>
  C8, as stated, fails when the argument holds a fluent call: an earlier rule rewrites
  across the malformed shape before the correction rule runs. It also fails for the empty
  argument, which \<open>[^,]+\<close> does not match.
\<close>

theorem correction_counterexample:
  "is_receiver ident_char ''x'' \<and> is_receiver ident_char ''y'' \<and> CHR '','' \<notin> set ''v.Should().BeNull()''
   \<and> fix_all_should_patterns (''x'' @ ''.Assert.Contains('' @ ''v.Should().BeNull()'' @ '', '' @ ''y'' @ '')'')
       = ''Assert.Null(Assert.Contains(v), x.y)''
   \<and> ''Assert.Null(Assert.Contains(v), x.y)''
       \<noteq> ''Assert.Contains('' @ ''v.Should().BeNull()'' @ '', '' @ ''x'' @ ''.'' @ ''y'' @ '')''
   \<and> fix_all_should_patterns (''x'' @ ''.Assert.Contains('' @ [] @ '', '' @ ''y'' @ '')'')
       = ''x.Assert.Contains(, y)''"
  by code_simp

text \<open>
  C8, amended: for all identifiers \<open>X\<close> and \<open>Y\<close> and every non-empty argument text \<open>a\<close>
  that holds no comma, no \<open>.Should()\<close> and no \<open>.Assert.\<close>, fix_all_should.py turns
  \<open>X.Assert.Contains(a, Y)\<close> into \<open>Assert.Contains(a, X.Y)\<close> and \<open>X.Assert.Equal(a, Y)\<close> into
  \<open>Assert.Equal(a, X.Y)\<close>.
\<close>

theorem correction_requalifies:
  assumes "is_receiver ident_char X" "is_receiver ident_char Y" "a \<noteq> []" "CHR '','' \<notin> set a"
    and "\<not> contains ''.Should()'' a" "\<not> contains ''.Assert.'' a"
  shows "fix_all_should_patterns (X @ ''.Assert.Contains('' @ a @ '', '' @ Y @ '')'')
      = ''Assert.Contains('' @ a @ '', '' @ X @ ''.'' @ Y @ '')''
    \<and> fix_all_should_patterns (X @ ''.Assert.Equal('' @ a @ '', '' @ Y @ '')'')
      = ''Assert.Equal('' @ a @ '', '' @ X @ ''.'' @ Y @ '')''"
  using all_corr_contains[OF assms] all_corr_equal[OF assms] by simp

theorem correction_requalifies_witness:
  "is_receiver ident_char ''actor'' \<and> is_receiver ident_char ''log''
   \<and> [dq] @ ''x'' @ [dq] \<noteq> [] \<and> CHR '','' \<notin> set ([dq] @ ''x'' @ [dq])
   \<and> \<not> contains ''.Should()'' ([dq] @ ''x'' @ [dq]) \<and> \<not> contains ''.Assert.'' ([dq] @ ''x'' @ [dq])
   \<and> fix_all_should_patterns (''actor'' @ ''.Assert.Contains('' @ ([dq] @ ''x'' @ [dq]) @ '', '' @ ''log'' @ '')'')
       = ''Assert.Contains('' @ ([dq] @ ''x'' @ [dq]) @ '', '' @ ''actor'' @ ''.'' @ ''log'' @ '')''
   \<and> fix_all_should_patterns (''actor'' @ ''.Assert.Equal('' @ ([dq] @ ''x'' @ [dq]) @ '', '' @ ''log'' @ '')'')
       = ''Assert.Equal('' @ ([dq] @ ''x'' @ [dq]) @ '', '' @ ''actor'' @ ''.'' @ ''log'' @ '')''"
proof -
  have h: "is_receiver ident_char ''actor''" "is_receiver ident_char ''log''"
    "[dq] @ ''x'' @ [dq] \<noteq> []" "CHR '','' \<notin> set ([dq] @ ''x'' @ [dq])"
    "\<not> contains ''.Should()'' ([dq] @ ''x'' @ [dq])" "\<not> contains ''.Assert.'' ([dq] @ ''x'' @ [dq])"
    by code_simp+
  show ?thesis using correction_requalifies[OF h] h by blast
qed

end
